theory Spec2Isabelle
  imports Main
begin

section \<open>The operator graph built by OpRefactoredBlockedArrayCache\<close>

text \<open>
  The source file \<^verbatim>\<open>lazyflow/operators/opRefactoredBlockedArrayCache.py\<close> declares one
  operator class with five slots and, in its constructor, creates three inner operators
  and connects their slots. The model keeps the class as it is written: the slot
  declarations with their keyword arguments, the constructor as a sequence of graph
  updates in the order of the source lines, and the three methods \<^verbatim>\<open>setupOutputs\<close>,
  \<^verbatim>\<open>execute\<close> and \<^verbatim>\<open>propagateDirty\<close>.
\<close>

datatype operator =
    OpRefactoredBlockedArrayCache
  | OpCacheFixer
  | OpUnblockedArrayCache
  | OpSplitRequestsBlockwise

datatype slot_name = Input | fixAtCurrent | innerBlockShape | outerBlockShape | Output | BlockShape

datatype slot_kind = InputSlot | OutputSlot

type_synonym slot = "operator \<times> slot_name"

datatype pyvalue = PyBool bool | PyShape "int list"

datatype error = AssertionError | OutOfRange | InvalidConfiguration | NotConnected

text \<open>A slot declaration: the keyword arguments of \<^verbatim>\<open>InputSlot(...)\<close> and \<^verbatim>\<open>OutputSlot(...)\<close>.\<close>

record slot_decl =
  kind :: slot_kind
  allow_mask :: bool
  optional :: bool
  default_value :: "pyvalue option"

definition InputSlot_decl :: "bool \<Rightarrow> bool \<Rightarrow> pyvalue option \<Rightarrow> slot_decl" where
  "InputSlot_decl am opt v =
     \<lparr>kind = InputSlot, allow_mask = am, optional = opt, default_value = v\<rparr>"

definition OutputSlot_decl :: "bool \<Rightarrow> slot_decl" where
  "OutputSlot_decl am =
     \<lparr>kind = OutputSlot, allow_mask = am, optional = False, default_value = None\<rparr>"

text \<open>
  The class body, lines 38 to 44 (the commented-out \<^verbatim>\<open>BlockShape\<close> slot declares nothing):
  \<^verbatim>\<open>
    Input = InputSlot(allow_mask=True)
    fixAtCurrent = InputSlot(value=False)
    innerBlockShape = InputSlot(optional=True)
    outerBlockShape = InputSlot()
    Output = OutputSlot(allow_mask=True)
  \<close>
\<close>

definition declared_slots :: "(slot_name \<times> slot_decl) list" where
  "declared_slots =
     [(Input, InputSlot_decl True False None),
      (fixAtCurrent, InputSlot_decl False False (Some (PyBool False))),
      (innerBlockShape, InputSlot_decl False True None),
      (outerBlockShape, InputSlot_decl False False None),
      (Output, OutputSlot_decl True)]"

text \<open>
  The graph under construction: the operators created so far with their parent, the
  connections made so far as pairs (connected slot, the slot it was connected to) in
  the order of the calls, and the one constructor flag the source passes
  (\<^verbatim>\<open>always_request_full_blocks\<close> of the splitter).
\<close>

record graph =
  operators :: "(operator \<times> operator option) list"
  connections :: "(slot \<times> slot) list"
  always_request_full_blocks :: "bool option"

definition empty_graph :: graph where
  "empty_graph = \<lparr>operators = [], connections = [], always_request_full_blocks = None\<rparr>"

definition new_operator :: "operator \<Rightarrow> operator option \<Rightarrow> graph \<Rightarrow> graph" where
  "new_operator op parent g = g\<lparr>operators := operators g @ [(op, parent)]\<rparr>"

text \<open>
  Modelled from the spec: \<^verbatim>\<open>Slot.connect\<close> belongs to \<^verbatim>\<open>lazyflow.graph\<close>, which is not among
  the sources. The spec (section 2) gives the contract the model keeps: a read that enters
  a connected slot goes to the slot it is connected to, and dirty notifications flow the
  opposite way. \<^verbatim>\<open>a.connect(b)\<close> therefore records \<open>b\<close> as the upstream partner of \<open>a\<close>.
\<close>

definition connect :: "slot \<Rightarrow> slot \<Rightarrow> graph \<Rightarrow> graph" where
  "connect s up g = g\<lparr>connections := connections g @ [(s, up)]\<rparr>"

text \<open>
  The constructor, lines 46 to 68, statement by statement:
  \<^verbatim>\<open>
    self._opCacheFixer = OpCacheFixer( parent=self )
    self._opCacheFixer.Input.connect( self.Input )
    self._opCacheFixer.fixAtCurrent.connect( self.fixAtCurrent )
    self._opUnblockedArrayCache = OpUnblockedArrayCache( parent=self )
    self._opUnblockedArrayCache.Input.connect( self._opCacheFixer.Output )
    self._opSplitRequestsBlockwise = OpSplitRequestsBlockwise( always_request_full_blocks=True, parent=self )
    self._opSplitRequestsBlockwise.BlockShape.connect( self.outerBlockShape )
    self._opSplitRequestsBlockwise.Input.connect( self._opUnblockedArrayCache.Output )
    self.Output.connect( self._opSplitRequestsBlockwise.Output )
  \<close>
\<close>

definition init :: graph where
  "init =
     (let self = OpRefactoredBlockedArrayCache;
          g = new_operator self None empty_graph;
          g = new_operator OpCacheFixer (Some self) g;
          g = connect (OpCacheFixer, Input) (self, Input) g;
          g = connect (OpCacheFixer, fixAtCurrent) (self, fixAtCurrent) g;
          g = new_operator OpUnblockedArrayCache (Some self) g;
          g = connect (OpUnblockedArrayCache, Input) (OpCacheFixer, Output) g;
          g = new_operator OpSplitRequestsBlockwise (Some self)
                (g\<lparr>always_request_full_blocks := Some True\<rparr>);
          g = connect (OpSplitRequestsBlockwise, BlockShape) (self, outerBlockShape) g;
          g = connect (OpSplitRequestsBlockwise, Input) (OpUnblockedArrayCache, Output) g;
          g = connect (self, Output) (OpSplitRequestsBlockwise, Output) g
      in g)"

text \<open>
  The three methods of the class, lines 70 to 77. \<^verbatim>\<open>setupOutputs\<close> and \<^verbatim>\<open>propagateDirty\<close>
  are \<^verbatim>\<open>pass\<close>: the first leaves the graph as it is, the second emits no notification
  (the model returns the list of regions it marks dirty on its own output).
  \<^verbatim>\<open>execute\<close> is \<^verbatim>\<open>assert False, "Shouldn't get here."\<close>: it raises for every argument.
\<close>

record roi =
  start :: "int list"
  stop :: "int list"

definition setupOutputs :: "graph \<Rightarrow> graph" where
  "setupOutputs g = g"

definition execute :: "slot_name \<Rightarrow> nat list \<Rightarrow> roi \<Rightarrow> 'r \<Rightarrow> error + 'r" where
  "execute slot subindex r result = Inl AssertionError"

definition propagateDirty :: "slot_name \<Rightarrow> nat list \<Rightarrow> roi \<Rightarrow> roi list" where
  "propagateDirty slot subindex r = []"

subsection \<open>How the graph answers reads and routes values\<close>

text \<open>
  Modelled from the spec: the dispatch of a read belongs to \<^verbatim>\<open>lazyflow.graph\<close>, which is not
  among the sources. Section 2 of the spec describes it: a read request that enters the
  composer's output goes to the splitter, which reads from the cache, which on a miss
  pulls from the dirty-freeze stage, which pulls from upstream. So a read of a connected
  slot is passed to its partner; a read of an unconnected output slot is answered by
  the \<^verbatim>\<open>execute\<close> method of the operator that owns it, and each of the three stages answers
  by reading its own \<^verbatim>\<open>Input\<close>; the composer's \<^verbatim>\<open>execute\<close> reads nothing (it raises); a read
  of an unconnected input slot is answered from outside the graph. The walk is bounded by
  fuel, so that a cyclic graph gives \<open>None\<close> rather than no answer.
\<close>

definition partner :: "graph \<Rightarrow> slot \<Rightarrow> slot option" where
  "partner g s = map_of (connections g) s"

datatype step = Forwarded slot | Executes operator | External slot

fun read_trace :: "nat \<Rightarrow> graph \<Rightarrow> slot \<Rightarrow> step list option" where
  "read_trace 0 g s = None"
| "read_trace (Suc n) g s =
     (case partner g s of
        Some up \<Rightarrow> map_option ((#) (Forwarded s)) (read_trace n g up)
      | None \<Rightarrow>
          (if snd s = Output then
             (if fst s = OpRefactoredBlockedArrayCache then Some [Executes (fst s)]
              else map_option ((#) (Executes (fst s))) (read_trace n g (fst s, Input)))
           else Some [External s]))"

definition read_steps :: "graph \<Rightarrow> slot \<Rightarrow> step list option" where
  "read_steps g s = read_trace (2 * length (operators g) + length (connections g) + 1) g s"

text \<open>
  A read of a slot of the graph: it fails with the composer's assertion when the walk
  reaches the composer's own \<^verbatim>\<open>execute\<close>, and otherwise names the steps that answer it.
\<close>

definition read_slot :: "graph \<Rightarrow> slot \<Rightarrow> roi \<Rightarrow> error + step list" where
  "read_slot g s r =
     (case read_steps g s of
        None \<Rightarrow> Inl NotConnected
      | Some steps \<Rightarrow>
          (if Executes OpRefactoredBlockedArrayCache \<in> set steps
           then (case execute Output [] r steps of Inl e \<Rightarrow> Inl e | Inr x \<Rightarrow> Inr x)
           else Inr steps))"

text \<open>
  The source of a configuration slot: the slot at the upstream end of its chain of
  connections. The slots that consume a slot are those connected to it.
\<close>

fun source_of :: "nat \<Rightarrow> graph \<Rightarrow> slot \<Rightarrow> slot" where
  "source_of 0 g s = s"
| "source_of (Suc n) g s = (case partner g s of Some up \<Rightarrow> source_of n g up | None \<Rightarrow> s)"

definition source :: "graph \<Rightarrow> slot \<Rightarrow> slot" where
  "source g s = source_of (length (connections g)) g s"

definition consumers :: "graph \<Rightarrow> slot \<Rightarrow> slot list" where
  "consumers g up = map fst (filter (\<lambda>c. snd c = up) (connections g))"

definition connected_inputs :: "graph \<Rightarrow> operator \<Rightarrow> (slot_name \<times> slot) list" where
  "connected_inputs g op =
     map (\<lambda>c. (snd (fst c), snd c)) (filter (\<lambda>c. fst (fst c) = op) (connections g))"

text \<open>
  The value a slot carries: the value set by the user on its source slot, and the
  declared default (\<^verbatim>\<open>value=...\<close>) of the source slot when the user has set none. Only
  the composer's slots have declarations in the source, so only they have defaults here.
\<close>

definition declared_default :: "slot \<Rightarrow> pyvalue option" where
  "declared_default s =
     (if fst s = OpRefactoredBlockedArrayCache
      then (case map_of declared_slots (snd s) of
              Some d \<Rightarrow> default_value d
            | None \<Rightarrow> None)
      else None)"

definition slot_value :: "graph \<Rightarrow> (slot \<rightharpoonup> pyvalue) \<Rightarrow> slot \<Rightarrow> pyvalue option" where
  "slot_value g user s =
     (let src = source g s
      in case user src of Some v \<Rightarrow> Some v | None \<Rightarrow> declared_default src)"

subsection \<open>Metadata\<close>

text \<open>
  The metadata of a slot: axis identifiers, shape and element type.
\<close>

record meta =
  axistags :: "string list"
  shape :: "int list"
  dtype :: string

text \<open>
  Modelled from the spec: the \<^verbatim>\<open>setupOutputs\<close> methods of \<^verbatim>\<open>OpCacheFixer\<close>,
  \<^verbatim>\<open>OpUnblockedArrayCache\<close> and \<^verbatim>\<open>OpSplitRequestsBlockwise\<close> are not among the sources. The
  spec (section 3, Axis Metadata) says that metadata is propagated unchanged from upstream
  to downstream through every stage: the output metadata of a stage is the metadata of its
  \<^verbatim>\<open>Input\<close>.
\<close>

definition stage_setupOutputs :: "operator \<Rightarrow> meta option \<Rightarrow> meta option" where
  "stage_setupOutputs op input_meta = input_meta"

text \<open>
  Modelled from the spec: how metadata reaches a slot is part of \<^verbatim>\<open>lazyflow.graph\<close>. A connected
  slot has the metadata of its partner. An unconnected output slot has what the
  \<^verbatim>\<open>setupOutputs\<close> of its operator assigns: the stages assign the metadata of their
  \<^verbatim>\<open>Input\<close>, the composer's \<^verbatim>\<open>setupOutputs\<close> is \<^verbatim>\<open>pass\<close> and assigns nothing. The composer's
  unconnected \<^verbatim>\<open>Input\<close> carries the metadata \<open>m\<close> declared by the upstream (\<open>None\<close> while
  the upstream is not ready); any other unconnected input slot has none.
\<close>

fun meta_of :: "nat \<Rightarrow> graph \<Rightarrow> meta option \<Rightarrow> slot \<Rightarrow> meta option" where
  "meta_of 0 g m s = None"
| "meta_of (Suc n) g m s =
     (case partner g s of
        Some up \<Rightarrow> meta_of n g m up
      | None \<Rightarrow>
          (if snd s = Output then
             (if fst s = OpRefactoredBlockedArrayCache then None
              else stage_setupOutputs (fst s) (meta_of n g m (fst s, Input)))
           else if s = (OpRefactoredBlockedArrayCache, Input) then m
           else None))"

definition slot_meta :: "graph \<Rightarrow> meta option \<Rightarrow> slot \<Rightarrow> meta option" where
  "slot_meta g m s = meta_of (2 * length (operators g) + length (connections g) + 1) g m s"

subsection \<open>Notifications on a configuration change\<close>

text \<open>
  Modelled from the spec: what a stage does when one of its configuration slots changes is
  in sources that are not present, so it is the parameter \<open>react\<close> (the regions the stage
  that owns the slot reports dirty at the composer's output). When a configuration slot of
  the composer changes, the framework calls the composer's own \<^verbatim>\<open>propagateDirty\<close> and
  passes the change on to every slot connected to the changed one. The listeners of the
  composer's output receive what the composer emits, followed by what those stages emit.
\<close>

definition on_config_change :: "graph \<Rightarrow> (slot \<Rightarrow> roi list) \<Rightarrow> slot_name \<Rightarrow> roi \<Rightarrow> roi list" where
  "on_config_change g react s full_extent =
     propagateDirty s [] full_extent
     @ concat (map react (consumers g (OpRefactoredBlockedArrayCache, s)))"

section \<open>The dirty-freeze stage\<close>

text \<open>
  Modelled from the spec: \<^verbatim>\<open>opCacheFixer.py\<close> is not among the sources. Section 4.2 of the spec
  gives a state machine with the states Live and Frozen, driven by \<^verbatim>\<open>setFrozen\<close>:
  \<^item> Live to Live: a dirty notification is forwarded unchanged and immediately;
  \<^item> Live to Frozen: the accumulated-dirty set is cleared;
  \<^item> Frozen to Frozen: a dirty notification is not forwarded, its region is merged into the
    accumulated-dirty set, kept as a bounding box (sections 3 and 9);
  \<^item> Frozen to Live: one notification covering the accumulated-dirty set is forwarded
    if the set is not empty, and the set is cleared.
  Each operation returns the notifications it sends downstream and the new state.
\<close>

record freeze_state =
  frozen :: bool
  accumulated :: "roi option"

definition bounding_box :: "roi \<Rightarrow> roi \<Rightarrow> roi" where
  "bounding_box a b =
     \<lparr>start = map2 min (start a) (start b), stop = map2 max (stop a) (stop b)\<rparr>"

definition merge_dirty :: "roi option \<Rightarrow> roi \<Rightarrow> roi option" where
  "merge_dirty acc r = (case acc of None \<Rightarrow> Some r | Some a \<Rightarrow> Some (bounding_box a r))"

definition fixer_dirty :: "roi \<Rightarrow> freeze_state \<Rightarrow> roi list \<times> freeze_state" where
  "fixer_dirty r st =
     (if frozen st then ([], st\<lparr>accumulated := merge_dirty (accumulated st) r\<rparr>)
      else ([r], st))"

definition setFrozen :: "bool \<Rightarrow> freeze_state \<Rightarrow> roi list \<times> freeze_state" where
  "setFrozen b st =
     (if frozen st then
        (if b then ([], st)
         else ((case accumulated st of None \<Rightarrow> [] | Some a \<Rightarrow> [a]),
               \<lparr>frozen = False, accumulated = None\<rparr>))
      else
        (if b then ([], \<lparr>frozen = True, accumulated = None\<rparr>)
         else ([], st)))"

text \<open>
  A region \<open>d\<close> covers a region \<open>r\<close> when \<open>d\<close> starts no later and stops no earlier than \<open>r\<close>
  on every axis. A region of dimension \<open>n\<close> has \<open>n\<close> components in both vectors.
\<close>

definition covers :: "roi \<Rightarrow> roi \<Rightarrow> bool" where
  "covers d r = (list_all2 (\<le>) (start d) (start r) \<and> list_all2 (\<le>) (stop r) (stop d))"

definition roi_dim :: "nat \<Rightarrow> roi \<Rightarrow> bool" where
  "roi_dim n r = (length (start r) = n \<and> length (stop r) = n)"

definition accumulated_dim :: "nat \<Rightarrow> freeze_state \<Rightarrow> bool" where
  "accumulated_dim n st = (case accumulated st of None \<Rightarrow> True | Some a \<Rightarrow> roi_dim n a)"

text \<open>
  The freeze stage of a pipeline whose configuration comes from the graph: the value
  that reaches the stage's \<^verbatim>\<open>fixAtCurrent\<close> slot is handed to \<^verbatim>\<open>setFrozen\<close>.
\<close>

definition fixAtCurrent_value :: "graph \<Rightarrow> (slot \<rightharpoonup> pyvalue) \<Rightarrow> bool option" where
  "fixAtCurrent_value g user =
     (case slot_value g user (OpCacheFixer, fixAtCurrent) of
        Some (PyBool b) \<Rightarrow> Some b
      | _ \<Rightarrow> None)"

definition configure_fixer :: "graph \<Rightarrow> (slot \<rightharpoonup> pyvalue) \<Rightarrow> freeze_state \<Rightarrow> freeze_state option" where
  "configure_fixer g user st0 = map_option (\<lambda>b. snd (setFrozen b st0)) (fixAtCurrent_value g user)"

text \<open>
  The configuration an operator receives through the graph: the values that reach its
  connected slots other than the data slot \<^verbatim>\<open>Input\<close>.
\<close>

definition configuration_of ::
    "graph \<Rightarrow> (slot \<rightharpoonup> pyvalue) \<Rightarrow> operator \<Rightarrow> (slot_name \<times> pyvalue option) list" where
  "configuration_of g user op =
     map (\<lambda>c. (fst c, slot_value g user (op, fst c)))
         (filter (\<lambda>c. fst c \<noteq> Input) (connected_inputs g op))"

section \<open>Regions, the block grid and arrays\<close>

text \<open>
  Modelled from the spec: the block grid, the unblocked cache and the splitter
  (\<^verbatim>\<open>opUnblockedArrayCache.py\<close>, \<^verbatim>\<open>opSplitRequestsBlockwise.py\<close> and the region helpers they use)
  are not among the sources. The definitions of this section and the next two follow
  sections 3, 4.1, 4.3 and 4.4 of the spec.

  A region is a half-open box (section 3). A point lies in a region when it is at or after
  the start and before the stop on every axis. Two regions overlap when their intervals
  overlap on every axis, that is, when their intersection has a positive extent on every
  axis.
\<close>

type_synonym coord = "int list"

definition vadd :: "coord \<Rightarrow> coord \<Rightarrow> coord" where
  "vadd a b = map2 (+) a b"

definition vsub :: "coord \<Rightarrow> coord \<Rightarrow> coord" where
  "vsub a b = map2 (-) a b"

definition in_roi :: "coord \<Rightarrow> roi \<Rightarrow> bool" where
  "in_roi p r = (list_all2 (\<le>) (start r) p \<and> list_all2 (<) p (stop r))"

definition roi_shape :: "roi \<Rightarrow> coord" where
  "roi_shape r = vsub (stop r) (start r)"

definition in_shape :: "coord \<Rightarrow> coord \<Rightarrow> bool" where
  "in_shape q sh = list_all2 (\<lambda>x n. 0 \<le> x \<and> x < n) q sh"

definition getIntersection :: "roi \<Rightarrow> roi \<Rightarrow> roi" where
  "getIntersection a b =
     \<lparr>start = map2 max (start a) (start b), stop = map2 min (stop a) (stop b)\<rparr>"

definition overlaps :: "roi \<Rightarrow> roi \<Rightarrow> bool" where
  "overlaps a b = list_all2 (<) (start (getIntersection a b)) (stop (getIntersection a b))"

definition has_zero_extent :: "roi \<Rightarrow> bool" where
  "has_zero_extent r = list_ex (\<lambda>n. n = 0) (roi_shape r)"

text \<open>
  Modelled from the spec: a region within the bounds of an array of shape \<open>ash\<close>
  (section 3) has one component per
  axis, and \<open>0 \<le> start \<le> stop \<le> shape\<close> on every axis.
\<close>

definition within_bounds :: "roi \<Rightarrow> coord \<Rightarrow> bool" where
  "within_bounds r ash =
     (list_all (\<lambda>s. 0 \<le> s) (start r)
      \<and> list_all2 (\<le>) (start r) (stop r)
      \<and> list_all2 (\<le>) (stop r) ash)"

text \<open>
  Modelled from the spec: a block shape is a vector of positive integers, one per axis
  (section 3); anything else
  is an invalid configuration (section 7).
\<close>

definition valid_blockshape :: "coord \<Rightarrow> coord \<Rightarrow> bool" where
  "valid_blockshape bs ash = (length bs = length ash \<and> list_all (\<lambda>b. 0 < b) bs)"

text \<open>
  Modelled from the spec: section 4.1. \<^verbatim>\<open>blocksOverlapping\<close>: on every axis the inclusive range of the block indices
  whose interval overlaps \<open>[start, stop)\<close>, empty when \<open>stop = start\<close>; the result is the
  cartesian product of the ranges. \<^verbatim>\<open>blockCoveringRoi\<close>: on every axis
  \<open>start = index * blockShape\<close> and \<open>stop = min (start + blockShape) arrayShape\<close>; it fails
  with \<open>OutOfRange\<close> if \<open>start \<ge> arrayShape\<close> on some axis.
\<close>

definition axis_blocks :: "int \<Rightarrow> int \<Rightarrow> int \<Rightarrow> int list" where
  "axis_blocks s e b = (if e \<le> s then [] else [s div b .. (e - 1) div b])"

definition blocksOverlapping :: "roi \<Rightarrow> coord \<Rightarrow> coord list" where
  "blocksOverlapping r bs =
     product_lists (map (\<lambda>(s, e, b). axis_blocks s e b) (zip (start r) (zip (stop r) bs)))"

definition block_bounds :: "coord \<Rightarrow> coord \<Rightarrow> coord \<Rightarrow> roi" where
  "block_bounds k bs ash =
     (let st = map2 (*) k bs in \<lparr>start = st, stop = map2 min (map2 (+) st bs) ash\<rparr>)"

definition blockCoveringRoi :: "coord \<Rightarrow> coord \<Rightarrow> coord \<Rightarrow> error + roi" where
  "blockCoveringRoi k bs ash =
     (if list_ex (\<lambda>(s, n). s \<ge> n) (zip (map2 (*) k bs) ash) then Inl OutOfRange
      else Inr (block_bounds k bs ash))"

text \<open>
  Modelled from the spec: an array has a shape and elements at the indices within the shape; an index is relative
  to the array's own origin. The upstream (section 6) is an array-valued producer: its
  content is a function from absolute coordinates to elements, and \<^verbatim>\<open>computeRegion\<close> returns
  the array of the region, whose element at index \<open>q\<close> is the content at \<open>start + q\<close>.
\<close>

record 'a ndarray =
  a_shape :: coord
  a_data :: "coord \<rightharpoonup> 'a"

definition computeRegion :: "(coord \<Rightarrow> 'a) \<Rightarrow> roi \<Rightarrow> 'a ndarray" where
  "computeRegion up r =
     \<lparr>a_shape = roi_shape r,
      a_data = (\<lambda>q. if in_shape q (roi_shape r) then Some (up (vadd (start r) q)) else None)\<rparr>"

text \<open>
  Modelled from the spec: section 4.2, reads. A read is forwarded to the upstream unchanged, while Live and while
  Frozen alike.
\<close>

definition fixer_read :: "(coord \<Rightarrow> 'a) \<Rightarrow> freeze_state \<Rightarrow> roi \<Rightarrow> 'a ndarray" where
  "fixer_read up st r = computeRegion up r"

section \<open>The unblocked content cache\<close>

text \<open>
  Modelled from the spec: section 4.3, for one requester at a time. An entry holds the array of one block and a
  dirty flag; it is created on the first read of the block. The constructor hands the cache
  no block shape, so an entry is identified by the region of its block. A read of a block
  returns the stored array if there is an entry that is not dirty; otherwise it calls the
  upstream for exactly that region, stores the result with the dirty flag cleared, and
  returns it. A dirty notification marks dirty every entry whose block overlaps the region.
  The upstream is a total content function, so the failure of an upstream computation
  (section 7) has no branch here, and the notification the cache sends on to its own
  listeners is left out: no property below depends on either.
\<close>

record 'a entry =
  e_data :: "'a ndarray"
  e_dirty :: bool

type_synonym 'a cache = "roi \<rightharpoonup> 'a entry"

definition cache_read ::
    "(roi \<Rightarrow> 'a ndarray) \<Rightarrow> 'a cache \<Rightarrow> roi \<Rightarrow> 'a ndarray \<times> 'a cache" where
  "cache_read upstream c broi =
     (case c broi of
        Some e \<Rightarrow>
          (if \<not> e_dirty e then (e_data e, c)
           else (let d = upstream broi in (d, c(broi \<mapsto> \<lparr>e_data = d, e_dirty = False\<rparr>))))
      | None \<Rightarrow> (let d = upstream broi in (d, c(broi \<mapsto> \<lparr>e_data = d, e_dirty = False\<rparr>))))"

definition cache_dirty :: "roi \<Rightarrow> 'a cache \<Rightarrow> 'a cache" where
  "cache_dirty r c =
     (\<lambda>k. map_option (\<lambda>e. if overlaps k r then e\<lparr>e_dirty := True\<rparr> else e) (c k))"

section \<open>The request splitter\<close>

text \<open>
  Modelled from the spec: section 4.4. A read requires a valid block shape and a region within the array bounds.
  A region with zero extent on some axis gives an empty array and no block read. Otherwise,
  for every block of \<^verbatim>\<open>blocksOverlapping\<close>, the full covering region of the block is read
  from the cache, and only the part of the block that lies in the requested region is
  copied into the result buffer, at the offset of that part in the buffer. The result is
  returned together with the state of the cache and the list of the regions requested
  from it.
\<close>

definition paste :: "roi \<Rightarrow> roi \<Rightarrow> 'a ndarray \<Rightarrow> (coord \<rightharpoonup> 'a) \<Rightarrow> (coord \<rightharpoonup> 'a)" where
  "paste r broi d buf =
     (\<lambda>q. let p = vadd (start r) q
          in if in_shape q (roi_shape r) \<and> in_roi p (getIntersection broi r)
             then a_data d (vsub p (start broi))
             else buf q)"

fun read_blocks ::
    "coord \<Rightarrow> coord \<Rightarrow> ('c \<Rightarrow> roi \<Rightarrow> 'a ndarray \<times> 'c) \<Rightarrow> roi \<Rightarrow> coord list
      \<Rightarrow> (coord \<rightharpoonup> 'a) \<times> 'c \<times> roi list \<Rightarrow> error + ((coord \<rightharpoonup> 'a) \<times> 'c \<times> roi list)" where
  "read_blocks bs ash rd r [] acc = Inr acc"
| "read_blocks bs ash rd r (k # ks) (buf, c, reqs) =
     (case blockCoveringRoi k bs ash of
        Inl e \<Rightarrow> Inl e
      | Inr broi \<Rightarrow>
          (case rd c broi of
             (d, c') \<Rightarrow> read_blocks bs ash rd r ks (paste r broi d buf, c', reqs @ [broi])))"

definition splitter_read ::
    "coord \<Rightarrow> coord \<Rightarrow> ('c \<Rightarrow> roi \<Rightarrow> 'a ndarray \<times> 'c) \<Rightarrow> 'c \<Rightarrow> roi
      \<Rightarrow> error + ('a ndarray \<times> 'c \<times> roi list)" where
  "splitter_read bs ash rd c r =
     (if \<not> valid_blockshape bs ash then Inl InvalidConfiguration
      else if \<not> within_bounds r ash then Inl OutOfRange
      else if has_zero_extent r then Inr (\<lparr>a_shape = roi_shape r, a_data = Map.empty\<rparr>, c, [])
      else (case read_blocks bs ash rd r (blocksOverlapping r bs) (Map.empty, c, []) of
              Inl e \<Rightarrow> Inl e
            | Inr (buf, c', reqs) \<Rightarrow> Inr (\<lparr>a_shape = roi_shape r, a_data = buf\<rparr>, c', reqs)))"

section \<open>The pipeline\<close>

text \<open>
  Modelled from the spec: the three stages, composed in the order of the constructor: the splitter reads from the
  cache, the cache reads from the freeze stage, the freeze stage reads from the upstream.
  Dirty notifications travel the other way: the freeze stage decides what is forwarded,
  and every forwarded region invalidates the cache. The block shape \<open>bs\<close> is the value of
  \<^verbatim>\<open>outerBlockShape\<close>, \<open>ash\<close> is the shape of the array and \<open>up\<close> the content of the
  upstream at the time of the call.
\<close>

record 'a pipeline =
  fixer :: freeze_state
  cache :: "'a cache"

definition fresh_pipeline :: "'a pipeline" where
  "fresh_pipeline = \<lparr>fixer = \<lparr>frozen = False, accumulated = None\<rparr>, cache = Map.empty\<rparr>"

definition pipeline_read ::
    "coord \<Rightarrow> coord \<Rightarrow> (coord \<Rightarrow> 'a) \<Rightarrow> 'a pipeline \<Rightarrow> roi \<Rightarrow> error + ('a ndarray \<times> 'a pipeline)" where
  "pipeline_read bs ash up st r =
     (case splitter_read bs ash (cache_read (fixer_read up (fixer st))) (cache st) r of
        Inl e \<Rightarrow> Inl e
      | Inr (a, c', reqs) \<Rightarrow> Inr (a, st\<lparr>cache := c'\<rparr>))"

definition pipeline_dirty :: "roi \<Rightarrow> 'a pipeline \<Rightarrow> 'a pipeline" where
  "pipeline_dirty r st =
     (case fixer_dirty r (fixer st) of
        (forwarded, f') \<Rightarrow> st\<lparr>fixer := f', cache := fold cache_dirty forwarded (cache st)\<rparr>)"

definition pipeline_setFrozen :: "bool \<Rightarrow> 'a pipeline \<Rightarrow> 'a pipeline" where
  "pipeline_setFrozen b st =
     (case setFrozen b (fixer st) of
        (forwarded, f') \<Rightarrow> st\<lparr>fixer := f', cache := fold cache_dirty forwarded (cache st)\<rparr>)"

text \<open>
  Projections of a read, for stating what a sequence of operations returns: the element
  of the returned array at an index, and the state the read leaves behind.
\<close>

definition read_cell ::
    "coord \<Rightarrow> coord \<Rightarrow> (coord \<Rightarrow> 'a) \<Rightarrow> 'a pipeline \<Rightarrow> roi \<Rightarrow> coord \<Rightarrow> 'a option" where
  "read_cell bs ash up st r q =
     (case pipeline_read bs ash up st r of Inl e \<Rightarrow> None | Inr (a, st') \<Rightarrow> a_data a q)"

definition read_state ::
    "coord \<Rightarrow> coord \<Rightarrow> (coord \<Rightarrow> 'a) \<Rightarrow> 'a pipeline \<Rightarrow> roi \<Rightarrow> 'a pipeline" where
  "read_state bs ash up st r =
     (case pipeline_read bs ash up st r of Inl e \<Rightarrow> st | Inr (a, st') \<Rightarrow> st')"

definition constant_content :: "'a \<Rightarrow> coord \<Rightarrow> 'a" where
  "constant_content v p = v"

text \<open>
  A cache is coherent with an upstream content when every entry that is not dirty holds
  the array the upstream would compute for the entry's region.
\<close>

definition coherent :: "(coord \<Rightarrow> 'a) \<Rightarrow> 'a cache \<Rightarrow> bool" where
  "coherent up c =
     (\<forall>k e. c k = Some e \<longrightarrow> \<not> e_dirty e \<longrightarrow> e_data e = computeRegion up k)"

section \<open>Histories of the pipeline\<close>

text \<open>
  Modelled from the spec: the contracts of section 6. What happens to a pipeline between
  its construction and a read is a sequence of events: a read of a region by a downstream
  consumer, a change of the upstream, and a change of \<^verbatim>\<open>fixAtCurrent\<close>. The upstream
  changes its content inside a region and announces that region dirty; outside the region
  its content stays as it was. A read in a history keeps the state the read leaves behind.
  A history is run against the content of the upstream and the state of the pipeline.
  An announced region is well formed when it has the dimension of the array.
\<close>

datatype 'a event = Read roi | UpstreamChange "coord \<Rightarrow> 'a" roi | SetFrozen bool

definition changed_content :: "(coord \<Rightarrow> 'a) \<Rightarrow> (coord \<Rightarrow> 'a) \<Rightarrow> roi \<Rightarrow> coord \<Rightarrow> 'a" where
  "changed_content up new r p = (if in_roi p r then new p else up p)"

fun pipeline_step ::
    "coord \<Rightarrow> coord \<Rightarrow> 'a event \<Rightarrow> (coord \<Rightarrow> 'a) \<times> 'a pipeline \<Rightarrow> (coord \<Rightarrow> 'a) \<times> 'a pipeline" where
  "pipeline_step bs ash (Read r) (up, st) = (up, read_state bs ash up st r)"
| "pipeline_step bs ash (UpstreamChange new r) (up, st) =
     (changed_content up new r, pipeline_dirty r st)"
| "pipeline_step bs ash (SetFrozen b) (up, st) = (up, pipeline_setFrozen b st)"

definition pipeline_run ::
    "coord \<Rightarrow> coord \<Rightarrow> 'a event list \<Rightarrow> (coord \<Rightarrow> 'a) \<times> 'a pipeline \<Rightarrow> (coord \<Rightarrow> 'a) \<times> 'a pipeline" where
  "pipeline_run bs ash es s = fold (pipeline_step bs ash) es s"

fun event_ok :: "nat \<Rightarrow> 'a event \<Rightarrow> bool" where
  "event_ok n (UpstreamChange new r) = roi_dim n r"
| "event_ok n (Read r) = True"
| "event_ok n (SetFrozen b) = True"

text \<open>
  The invariant of a history. Every entry of the cache is keyed by a region of the
  dimension of the array, the accumulated region has that dimension, and every entry that
  is not dirty either holds the upstream's current array of its region or, while the stage
  is Frozen, overlaps the accumulated region and so is marked dirty by the next transition
  to Live.
\<close>

definition cache_ok :: "nat \<Rightarrow> (coord \<Rightarrow> 'a) \<Rightarrow> freeze_state \<Rightarrow> 'a cache \<Rightarrow> bool" where
  "cache_ok n up f c =
     (\<forall>k e. c k = Some e \<longrightarrow>
        roi_dim n k
        \<and> (\<not> e_dirty e \<longrightarrow>
             e_data e = computeRegion up k
             \<or> (frozen f \<and> (\<exists>a. accumulated f = Some a \<and> overlaps k a))))"

definition snapshot_ok :: "nat \<Rightarrow> (coord \<Rightarrow> 'a) \<Rightarrow> 'a pipeline \<Rightarrow> bool" where
  "snapshot_ok n up st = (accumulated_dim n (fixer st) \<and> cache_ok n up (fixer st) (cache st))"

lemma connections_init:
  "connections init =
     [((OpCacheFixer, Input), (OpRefactoredBlockedArrayCache, Input)),
      ((OpCacheFixer, fixAtCurrent), (OpRefactoredBlockedArrayCache, fixAtCurrent)),
      ((OpUnblockedArrayCache, Input), (OpCacheFixer, Output)),
      ((OpSplitRequestsBlockwise, BlockShape), (OpRefactoredBlockedArrayCache, outerBlockShape)),
      ((OpSplitRequestsBlockwise, Input), (OpUnblockedArrayCache, Output)),
      ((OpRefactoredBlockedArrayCache, Output), (OpSplitRequestsBlockwise, Output))]"
  by (simp add: init_def connect_def new_operator_def empty_graph_def)

lemma operators_init:
  "operators init =
     [(OpRefactoredBlockedArrayCache, None),
      (OpCacheFixer, Some OpRefactoredBlockedArrayCache),
      (OpUnblockedArrayCache, Some OpRefactoredBlockedArrayCache),
      (OpSplitRequestsBlockwise, Some OpRefactoredBlockedArrayCache)]"
  by (simp add: init_def connect_def new_operator_def empty_graph_def)

lemma read_steps_init_Output:
  "read_steps init (OpRefactoredBlockedArrayCache, Output) =
     Some [Forwarded (OpRefactoredBlockedArrayCache, Output),
           Executes OpSplitRequestsBlockwise,
           Forwarded (OpSplitRequestsBlockwise, Input),
           Executes OpUnblockedArrayCache,
           Forwarded (OpUnblockedArrayCache, Input),
           Executes OpCacheFixer,
           Forwarded (OpCacheFixer, Input),
           External (OpRefactoredBlockedArrayCache, Input)]"
  by (simp add: read_steps_def partner_def connections_init operators_init eval_nat_numeral)

lemma source_init_fixAtCurrent:
  "source init (OpCacheFixer, fixAtCurrent) = (OpRefactoredBlockedArrayCache, fixAtCurrent)"
  by (simp add: source_def partner_def connections_init)

lemma consumers_init_innerBlockShape:
  "consumers init (OpRefactoredBlockedArrayCache, innerBlockShape) = []"
  by (simp add: consumers_def connections_init)

lemma list_all2_map2_min:
  "length xs = length ys \<Longrightarrow> list_all2 (\<le>) (map2 min xs ys) (xs :: int list)"
  "length xs = length ys \<Longrightarrow> list_all2 (\<le>) (map2 min xs ys) (ys :: int list)"
  by (induction xs ys rule: list_induct2) auto

lemma list_all2_map2_max:
  "length xs = length ys \<Longrightarrow> list_all2 (\<le>) (xs :: int list) (map2 max xs ys)"
  "length xs = length ys \<Longrightarrow> list_all2 (\<le>) (ys :: int list) (map2 max xs ys)"
  by (induction xs ys rule: list_induct2) auto

lemma covers_refl: "covers r r"
  by (simp add: covers_def list_all2_same)

lemma covers_bounding_box:
  assumes "roi_dim n a" "roi_dim n b"
  shows "covers (bounding_box a b) a" "covers (bounding_box a b) b" "roi_dim n (bounding_box a b)"
  using assms
  by (simp_all add: covers_def bounding_box_def roi_dim_def list_all2_map2_min list_all2_map2_max)

lemma list_all2_le_trans:
  "list_all2 (\<le>) xs ys \<Longrightarrow> list_all2 (\<le>) ys zs \<Longrightarrow> list_all2 (\<le>) xs (zs :: int list)"
  by (rule list_all2_trans[where ?P1.0 = "(\<le>)" and ?P2.0 = "(\<le>)"]) auto

lemma covers_trans: "covers a b \<Longrightarrow> covers b c \<Longrightarrow> covers a c"
  unfolding covers_def
  by (blast intro: list_all2_le_trans)

section \<open>Properties of the composer\<close>

text \<open>
  C1. The constructor wires the stages in the order dirty-freeze stage, unblocked cache,
  splitter: a read of the composer's Output is forwarded to the splitter, whose read of its
  Input is answered by the cache, whose read is answered by the freeze stage, whose read
  leaves the graph through the composer's Input. Output is the only declared output slot and
  Input the only slot through which the read leaves the graph. The freeze stage's
  fixAtCurrent comes from the composer's fixAtCurrent and is consumed by no other stage; the
  splitter's BlockShape comes from the composer's outerBlockShape and is consumed by no other
  stage.
\<close>

theorem C1_stage_order:
  "read_steps init (OpRefactoredBlockedArrayCache, Output) =
     Some [Forwarded (OpRefactoredBlockedArrayCache, Output),
           Executes OpSplitRequestsBlockwise,
           Forwarded (OpSplitRequestsBlockwise, Input),
           Executes OpUnblockedArrayCache,
           Forwarded (OpUnblockedArrayCache, Input),
           Executes OpCacheFixer,
           Forwarded (OpCacheFixer, Input),
           External (OpRefactoredBlockedArrayCache, Input)]
   \<and> map fst (filter (\<lambda>d. kind (snd d) = OutputSlot) declared_slots) = [Output]
   \<and> source init (OpCacheFixer, fixAtCurrent) = (OpRefactoredBlockedArrayCache, fixAtCurrent)
   \<and> consumers init (OpRefactoredBlockedArrayCache, fixAtCurrent) = [(OpCacheFixer, fixAtCurrent)]
   \<and> source init (OpSplitRequestsBlockwise, BlockShape) = (OpRefactoredBlockedArrayCache, outerBlockShape)
   \<and> consumers init (OpRefactoredBlockedArrayCache, outerBlockShape) = [(OpSplitRequestsBlockwise, BlockShape)]"
proof -
  have outs: "map fst (filter (\<lambda>d. kind (snd d) = OutputSlot) declared_slots) = [Output]"
    by (simp add: declared_slots_def InputSlot_decl_def OutputSlot_decl_def)
  have bs: "source init (OpSplitRequestsBlockwise, BlockShape) = (OpRefactoredBlockedArrayCache, outerBlockShape)"
    by (simp add: source_def partner_def connections_init)
  have c1: "consumers init (OpRefactoredBlockedArrayCache, fixAtCurrent) = [(OpCacheFixer, fixAtCurrent)]"
    by (simp add: consumers_def connections_init)
  have c2: "consumers init (OpRefactoredBlockedArrayCache, outerBlockShape) = [(OpSplitRequestsBlockwise, BlockShape)]"
    by (simp add: consumers_def connections_init)
  show ?thesis
    using read_steps_init_Output outs source_init_fixAtCurrent bs c1 c2 by simp
qed

lemma slot_meta_init_Output: "slot_meta init m (OpRefactoredBlockedArrayCache, Output) = m"
  by (simp add: slot_meta_def partner_def connections_init operators_init eval_nat_numeral
      stage_setupOutputs_def)

lemma consumers_init_outerBlockShape:
  "consumers init (OpRefactoredBlockedArrayCache, outerBlockShape) = [(OpSplitRequestsBlockwise, BlockShape)]"
  by (simp add: consumers_def connections_init)

lemma consumers_init_fixAtCurrent:
  "consumers init (OpRefactoredBlockedArrayCache, fixAtCurrent) = [(OpCacheFixer, fixAtCurrent)]"
  by (simp add: consumers_def connections_init)

text \<open>
  C9. The composer's Output is connected to the splitter's Output, so a read of it, for
  every region, is answered by the stages and never reaches the composer's own
  \<^verbatim>\<open>execute\<close>, which would raise. The read does not fail with the assertion.
\<close>

theorem C9_execute_unreachable:
  "partner init (OpRefactoredBlockedArrayCache, Output) = Some (OpSplitRequestsBlockwise, Output)
   \<and> (\<exists>steps. read_slot init (OpRefactoredBlockedArrayCache, Output) r = Inr steps
         \<and> Executes OpRefactoredBlockedArrayCache \<notin> set steps)
   \<and> read_slot init (OpRefactoredBlockedArrayCache, Output) r \<noteq> Inl AssertionError"
  by (simp add: read_slot_def read_steps_init_Output partner_def connections_init)

text \<open>
  C10. With no value set by the user, the freeze stage's fixAtCurrent slot carries the
  declared default False of the composer's fixAtCurrent; configured with it, the freeze
  stage is Live whatever its state was before, and a dirty notification for a region is
  forwarded downstream unchanged.
\<close>

theorem C10_default_not_frozen:
  "slot_value init Map.empty (OpCacheFixer, fixAtCurrent) = Some (PyBool False)
   \<and> (\<exists>st. configure_fixer init Map.empty st0 = Some st
         \<and> \<not> frozen st
         \<and> fixer_dirty r st = ([r], st))"
proof -
  have v: "slot_value init Map.empty (OpCacheFixer, fixAtCurrent) = Some (PyBool False)"
    by (simp add: slot_value_def source_init_fixAtCurrent declared_default_def
        declared_slots_def InputSlot_decl_def)
  have live: "\<not> frozen (snd (setFrozen False st0))"
    by (simp add: setFrozen_def)
  have "configure_fixer init Map.empty st0 = Some (snd (setFrozen False st0))"
    by (simp add: configure_fixer_def fixAtCurrent_value_def v)
  moreover have "fixer_dirty r (snd (setFrozen False st0)) = ([r], snd (setFrozen False st0))"
    using live by (simp add: fixer_dirty_def)
  ultimately show ?thesis using v live by blast
qed

text \<open>
  C3, as stated, fails: with innerBlockShape set to (16, 16) and outerBlockShape to (32, 32),
  no configuration value reaches the unblocked cache, and no slot consumes innerBlockShape.
\<close>

theorem C3_counterexample:
  "configuration_of init
      [(OpRefactoredBlockedArrayCache, outerBlockShape) \<mapsto> PyShape [32, 32],
       (OpRefactoredBlockedArrayCache, innerBlockShape) \<mapsto> PyShape [16, 16]]
      OpUnblockedArrayCache = []
   \<and> consumers init (OpRefactoredBlockedArrayCache, innerBlockShape) = []"
  by (simp add: configuration_of_def connected_inputs_def connections_init
      consumers_init_innerBlockShape)

text \<open>
  C3, amended. innerBlockShape is declared optional and is connected to no stage, whether
  it is set or not. The unblocked cache is connected only through its data Input, to the
  freeze stage's Output: it receives neither block shape. outerBlockShape is consumed by
  the splitter's BlockShape only, which carries the value the user set on it.
\<close>

theorem C3_innerBlockShape_unrouted:
  "map_option optional (map_of declared_slots innerBlockShape) = Some True
   \<and> consumers init (OpRefactoredBlockedArrayCache, innerBlockShape) = []
   \<and> connected_inputs init OpUnblockedArrayCache = [(Input, (OpCacheFixer, Output))]
   \<and> configuration_of init user OpUnblockedArrayCache = []
   \<and> consumers init (OpRefactoredBlockedArrayCache, outerBlockShape) = [(OpSplitRequestsBlockwise, BlockShape)]
   \<and> slot_value init user (OpSplitRequestsBlockwise, BlockShape)
       = user (OpRefactoredBlockedArrayCache, outerBlockShape)"
proof -
  have opt: "map_option optional (map_of declared_slots innerBlockShape) = Some True"
    by (simp add: declared_slots_def InputSlot_decl_def)
  have ci: "connected_inputs init OpUnblockedArrayCache = [(Input, (OpCacheFixer, Output))]"
    by (simp add: connected_inputs_def connections_init)
  have cfg: "configuration_of init user OpUnblockedArrayCache = []"
    by (simp add: configuration_of_def ci)
  have src: "source init (OpSplitRequestsBlockwise, BlockShape) = (OpRefactoredBlockedArrayCache, outerBlockShape)"
    by (simp add: source_def partner_def connections_init)
  have val: "slot_value init user (OpSplitRequestsBlockwise, BlockShape)
       = user (OpRefactoredBlockedArrayCache, outerBlockShape)"
    by (simp add: slot_value_def Let_def src declared_default_def declared_slots_def
        InputSlot_decl_def split: option.splits)
  show ?thesis
    using opt ci cfg val consumers_init_innerBlockShape consumers_init_outerBlockShape by simp
qed

text \<open>
  C2, as stated, fails: when innerBlockShape changes, the listeners of the composer's output
  receive no notification at all, even if every stage answered a change of its own
  configuration with a notification for the full extent (0, 0) to (100, 100).
\<close>

theorem C2_counterexample:
  "on_config_change init (\<lambda>s. [\<lparr>start = [0, 0], stop = [100, 100]\<rparr>]) innerBlockShape
      \<lparr>start = [0, 0], stop = [100, 100]\<rparr> = []"
  by (simp add: on_config_change_def propagateDirty_def consumers_init_innerBlockShape)

text \<open>
  C2, amended. On a change of a configuration input the composer's own
  \<^verbatim>\<open>setupOutputs\<close> changes nothing and its own \<^verbatim>\<open>propagateDirty\<close> emits nothing. The
  listeners of its output receive exactly what the stage connected to the changed input
  emits: the freeze stage for fixAtCurrent, the splitter for outerBlockShape, and nothing
  for innerBlockShape. The output metadata is the input metadata, through the connections.
\<close>

theorem C2_composer_hooks_do_nothing:
  "setupOutputs g = g
   \<and> propagateDirty s subindex r = []
   \<and> on_config_change init react fixAtCurrent full = react (OpCacheFixer, fixAtCurrent)
   \<and> on_config_change init react outerBlockShape full = react (OpSplitRequestsBlockwise, BlockShape)
   \<and> on_config_change init react innerBlockShape full = []
   \<and> slot_meta (setupOutputs init) m (OpRefactoredBlockedArrayCache, Output) = m"
  by (simp add: setupOutputs_def propagateDirty_def on_config_change_def
      consumers_init_fixAtCurrent consumers_init_outerBlockShape consumers_init_innerBlockShape
      slot_meta_init_Output)

text \<open>
  C5. Whatever metadata \<open>m\<close> the upstream declares at the composer's Input (\<open>None\<close> while it
  declares none), every slot on the data path carries exactly \<open>m\<close>: the input of the freeze
  stage, its output, the input and output of the cache, the input and output of the
  splitter, and the composer's Output. Axis identifiers, shape and element type are
  therefore the same at the output as at the input.
\<close>

theorem C5_metadata_unchanged:
  "map (slot_meta init m)
     [(OpRefactoredBlockedArrayCache, Input),
      (OpCacheFixer, Input), (OpCacheFixer, Output),
      (OpUnblockedArrayCache, Input), (OpUnblockedArrayCache, Output),
      (OpSplitRequestsBlockwise, Input), (OpSplitRequestsBlockwise, Output),
      (OpRefactoredBlockedArrayCache, Output)]
   = replicate 8 m"
  by (simp add: slot_meta_def partner_def connections_init operators_init eval_nat_numeral
      stage_setupOutputs_def)

section \<open>Properties of the dirty-freeze stage\<close>

text \<open>
  C8. In a Frozen stage, dirty notifications for \<open>r1\<close> and then \<open>r2\<close> (regions of the
  dimension of the array, as is the region accumulated so far, if any) send nothing
  downstream and leave the stage Frozen. The transition to Live then sends exactly one
  notification, whose region covers both \<open>r1\<close> and \<open>r2\<close>, and leaves the stage Live with
  nothing accumulated.
\<close>

theorem C8_freeze_then_flush:
  assumes "frozen st" and "accumulated_dim n st" and "roi_dim n r1" and "roi_dim n r2"
  shows "fst (fixer_dirty r1 st) = []
     \<and> frozen (snd (fixer_dirty r1 st))
     \<and> fst (fixer_dirty r2 (snd (fixer_dirty r1 st))) = []
     \<and> frozen (snd (fixer_dirty r2 (snd (fixer_dirty r1 st))))
     \<and> (\<exists>d. fst (setFrozen False (snd (fixer_dirty r2 (snd (fixer_dirty r1 st))))) = [d]
            \<and> covers d r1 \<and> covers d r2)
     \<and> \<not> frozen (snd (setFrozen False (snd (fixer_dirty r2 (snd (fixer_dirty r1 st))))))
     \<and> accumulated (snd (setFrozen False (snd (fixer_dirty r2 (snd (fixer_dirty r1 st)))))) = None"
proof -
  define s1 where "s1 = snd (fixer_dirty r1 st)"
  define s2 where "s2 = snd (fixer_dirty r2 s1)"
  have n1: "fst (fixer_dirty r1 st) = []" and f1: "frozen s1"
    using assms(1) by (simp_all add: s1_def fixer_dirty_def)
  obtain a1 where a1: "accumulated s1 = Some a1" "covers a1 r1" "roi_dim n a1"
  proof (cases "accumulated st")
    case None
    then have "accumulated s1 = Some r1"
      using assms(1) by (simp add: s1_def fixer_dirty_def merge_dirty_def)
    then show ?thesis using that covers_refl assms(3) by blast
  next
    case (Some a)
    then have "accumulated s1 = Some (bounding_box a r1)"
      using assms(1) by (simp add: s1_def fixer_dirty_def merge_dirty_def)
    moreover have "roi_dim n a" using Some assms(2) by (simp add: accumulated_dim_def)
    ultimately show ?thesis
      using that covers_bounding_box[of n a r1] assms(3) by blast
  qed
  have n2: "fst (fixer_dirty r2 s1) = []" and f2: "frozen s2"
    using f1 by (simp_all add: s2_def fixer_dirty_def)
  have a2: "accumulated s2 = Some (bounding_box a1 r2)"
    using f1 a1(1) by (simp add: s2_def fixer_dirty_def merge_dirty_def)
  have c2: "covers (bounding_box a1 r2) r2" and c1: "covers (bounding_box a1 r2) r1"
    using covers_bounding_box[of n a1 r2] a1(2,3) assms(4) covers_trans by blast+
  have flush: "setFrozen False s2 = ([bounding_box a1 r2], \<lparr>frozen = False, accumulated = None\<rparr>)"
    using f2 a2 by (simp add: setFrozen_def)
  show ?thesis
    using n1 f1 n2 f2 flush c1 c2 unfolding s2_def s1_def by simp
qed

theorem C8_freeze_then_flush_witness:
  "fst (setFrozen False
          (snd (fixer_dirty \<lparr>start = [10, 30], stop = [40, 50]\<rparr>
             (snd (fixer_dirty \<lparr>start = [5, 5], stop = [15, 15]\<rparr>
                \<lparr>frozen = True, accumulated = None\<rparr>)))))
     = [\<lparr>start = [5, 5], stop = [40, 50]\<rparr>]
   \<and> (\<exists>d. fst (setFrozen False
          (snd (fixer_dirty \<lparr>start = [10, 30], stop = [40, 50]\<rparr>
             (snd (fixer_dirty \<lparr>start = [5, 5], stop = [15, 15]\<rparr>
                \<lparr>frozen = True, accumulated = None\<rparr>))))) = [d]
         \<and> covers d \<lparr>start = [5, 5], stop = [15, 15]\<rparr>
         \<and> covers d \<lparr>start = [10, 30], stop = [40, 50]\<rparr>)"
proof -
  have h1: "frozen \<lparr>frozen = True, accumulated = None\<rparr>" by simp
  have h2: "accumulated_dim 2 \<lparr>frozen = True, accumulated = None\<rparr>"
    by (simp add: accumulated_dim_def)
  have h3: "roi_dim 2 \<lparr>start = [5, 5], stop = [15, 15]\<rparr>" by (simp add: roi_dim_def)
  have h4: "roi_dim 2 \<lparr>start = [10, 30], stop = [40, 50]\<rparr>" by (simp add: roi_dim_def)
  have v: "fst (setFrozen False
          (snd (fixer_dirty \<lparr>start = [10, 30], stop = [40, 50]\<rparr>
             (snd (fixer_dirty \<lparr>start = [5, 5], stop = [15, 15]\<rparr>
                \<lparr>frozen = True, accumulated = None\<rparr>)))))
     = [\<lparr>start = [5, 5], stop = [40, 50]\<rparr>]"
    by (simp add: setFrozen_def fixer_dirty_def merge_dirty_def bounding_box_def)
  show ?thesis
    using v C8_freeze_then_flush[OF h1 h2 h3 h4] by blast
qed

section \<open>Properties of the grid, the splitter and the pipeline\<close>

lemma in_roi_nth:
  "in_roi p r \<longleftrightarrow>
     (length (start r) = length p \<and> length (stop r) = length p
      \<and> (\<forall>i<length p. start r ! i \<le> p ! i \<and> p ! i < stop r ! i))"
  by (auto simp: in_roi_def list_all2_conv_all_nth)

lemma in_shape_nth:
  "in_shape q sh \<longleftrightarrow> (length q = length sh \<and> (\<forall>i<length sh. 0 \<le> q ! i \<and> q ! i < sh ! i))"
  by (auto simp: in_shape_def list_all2_conv_all_nth)

lemma in_shape_imp_in_roi:
  assumes "roi_dim n r" "in_shape q (roi_shape r)"
  shows "in_roi (vadd (start r) q) r"
  using assms
  by (auto simp: in_roi_nth in_shape_nth roi_dim_def roi_shape_def vadd_def vsub_def)

lemma in_roi_getIntersection:
  assumes "roi_dim n a" "roi_dim n b"
  shows "in_roi p (getIntersection a b) \<longleftrightarrow> in_roi p a \<and> in_roi p b"
  using assms
  by (auto simp: in_roi_nth roi_dim_def getIntersection_def)

lemma computeRegion_cell:
  assumes "in_roi p k"
  shows "a_data (computeRegion up k) (vsub p (start k)) = Some (up p)"
proof -
  have len: "length (start k) = length p" "length (stop k) = length p"
    using assms by (simp_all add: in_roi_nth)
  have "vadd (start k) (vsub p (start k)) = p"
    using len by (auto simp: vadd_def vsub_def list_eq_iff_nth_eq)
  moreover have "in_shape (vsub p (start k)) (roi_shape k)"
    using assms len by (auto simp: in_shape_nth in_roi_nth roi_shape_def vsub_def)
  ultimately show ?thesis by (simp add: computeRegion_def)
qed

lemma axis_block_start_le:
  fixes b :: int
  assumes "0 < b"
  shows "p div b * b \<le> p" and "p < p div b * b + b"
proof -
  have e: "p div b * b = p - p mod b" by (simp add: minus_mod_eq_div_mult)
  show "p div b * b \<le> p" using e assms by simp
  show "p < p div b * b + b" using e assms pos_mod_bound[of b p] by simp
qed

lemma axis_block_in_range:
  fixes b :: int
  assumes "0 < b" "k \<le> (e - 1) div b" "e \<le> a"
  shows "k * b < a"
proof -
  have "k * b \<le> (e - 1) div b * b" using assms(1,2) by (simp add: mult_right_mono)
  also have "\<dots> \<le> e - 1" using axis_block_start_le(1)[OF assms(1)] .
  finally show ?thesis using assms(3) by simp
qed

lemma axis_blocks_mem:
  "k \<in> set (axis_blocks s e b) \<longleftrightarrow> s < e \<and> s div b \<le> k \<and> k \<le> (e - 1) div b"
  by (auto simp: axis_blocks_def)

lemma mem_blocksOverlapping:
  assumes "roi_dim n r" "length bs = n"
  shows "k \<in> set (blocksOverlapping r bs) \<longleftrightarrow>
     (length k = n \<and> (\<forall>i<n. start r ! i < stop r ! i
         \<and> start r ! i div bs ! i \<le> k ! i \<and> k ! i \<le> (stop r ! i - 1) div bs ! i))"
  using assms
  by (auto simp: blocksOverlapping_def product_lists_set list_all2_conv_all_nth roi_dim_def
      axis_blocks_mem)

lemma blockCoveringRoi_Inr:
  assumes "length k = n" "length bs = n" "length ash = n" "\<forall>i<n. k ! i * bs ! i < ash ! i"
  shows "blockCoveringRoi k bs ash = Inr (block_bounds k bs ash)"
proof -
  have "\<not> list_ex (\<lambda>(s, n). s \<ge> n) (zip (map2 (*) k bs) ash)"
    using assms by (auto simp: list_ex_iff set_zip)
  then show ?thesis by (simp add: blockCoveringRoi_def)
qed

lemma within_bounds_nth:
  "within_bounds r ash \<longleftrightarrow>
     (length (start r) = length ash \<and> length (stop r) = length ash
      \<and> (\<forall>i<length ash. 0 \<le> start r ! i \<and> start r ! i \<le> stop r ! i \<and> stop r ! i \<le> ash ! i))"
  by (auto simp: within_bounds_def list_all2_conv_all_nth list_all_length)

lemma valid_blockshape_nth:
  "valid_blockshape bs ash \<longleftrightarrow> (length bs = length ash \<and> (\<forall>i<length ash. 0 < bs ! i))"
  by (auto simp: valid_blockshape_def list_all_length)

lemma roi_dim_block_bounds:
  assumes "length k = n" "length bs = n" "length ash = n"
  shows "roi_dim n (block_bounds k bs ash)"
  using assms by (simp add: roi_dim_def block_bounds_def Let_def)

lemma blocks_in_range:
  assumes "within_bounds r ash" "valid_blockshape bs ash" "k \<in> set (blocksOverlapping r bs)"
  shows "blockCoveringRoi k bs ash = Inr (block_bounds k bs ash)"
    and "roi_dim (length ash) (block_bounds k bs ash)"
proof -
  let ?n = "length ash"
  have dim: "roi_dim ?n r" and lbs: "length bs = ?n"
    using assms(1,2) by (simp_all add: within_bounds_nth valid_blockshape_nth roi_dim_def)
  have k: "length k = ?n" "\<forall>i<?n. k ! i \<le> (stop r ! i - 1) div bs ! i"
    using assms(3) mem_blocksOverlapping[OF dim lbs] by auto
  have "\<forall>i<?n. k ! i * bs ! i < ash ! i"
  proof (intro allI impI)
    fix i assume i: "i < ?n"
    show "k ! i * bs ! i < ash ! i"
      using axis_block_in_range[of "bs ! i" "k ! i" "stop r ! i" "ash ! i"] i k(2) assms(1,2)
      by (simp add: within_bounds_nth valid_blockshape_nth)
  qed
  then show "blockCoveringRoi k bs ash = Inr (block_bounds k bs ash)"
    using blockCoveringRoi_Inr[OF k(1) lbs] by simp
  show "roi_dim ?n (block_bounds k bs ash)"
    using roi_dim_block_bounds[OF k(1) lbs] by simp
qed

lemma point_block:
  assumes "within_bounds r ash" "valid_blockshape bs ash" "in_roi p r"
  shows "map2 (div) p bs \<in> set (blocksOverlapping r bs)"
    and "in_roi p (block_bounds (map2 (div) p bs) bs ash)"
proof -
  let ?n = "length ash"
  let ?k = "map2 (div) p bs"
  have dim: "roi_dim ?n r" and lbs: "length bs = ?n"
    using assms(1,2) by (simp_all add: within_bounds_nth valid_blockshape_nth roi_dim_def)
  have lp: "length p = ?n" using assms(3) dim by (simp add: in_roi_nth roi_dim_def)
  have kn: "\<And>i. i < ?n \<Longrightarrow> ?k ! i = p ! i div bs ! i" "length ?k = ?n"
    using lp lbs by simp_all
  have ax: "\<And>i. i < ?n \<Longrightarrow> start r ! i \<le> p ! i \<and> p ! i < stop r ! i \<and> 0 < bs ! i \<and> stop r ! i \<le> ash ! i"
    using assms lp by (simp add: in_roi_nth within_bounds_nth valid_blockshape_nth)
  show "?k \<in> set (blocksOverlapping r bs)"
    unfolding mem_blocksOverlapping[OF dim lbs]
  proof (intro conjI allI impI)
    show "length ?k = ?n" by (rule kn(2))
  next
    fix i assume i: "i < ?n"
    show "start r ! i < stop r ! i" using ax[OF i] by simp
    show "start r ! i div bs ! i \<le> ?k ! i"
      using ax[OF i] kn(1)[OF i] by (simp add: zdiv_mono1)
    show "?k ! i \<le> (stop r ! i - 1) div bs ! i"
      using ax[OF i] kn(1)[OF i] by (simp add: zdiv_mono1)
  qed
  show "in_roi p (block_bounds ?k bs ash)"
    unfolding in_roi_nth
  proof (intro conjI allI impI)
    show "length (start (block_bounds ?k bs ash)) = length p"
      using lp lbs by (simp add: block_bounds_def Let_def)
    show "length (stop (block_bounds ?k bs ash)) = length p"
      using lp lbs by (simp add: block_bounds_def Let_def)
  next
    fix i assume "i < length p"
    then have i: "i < ?n" using lp by simp
    have s: "start (block_bounds ?k bs ash) ! i = p ! i div bs ! i * bs ! i"
      using i lp lbs by (simp add: block_bounds_def Let_def)
    have e: "stop (block_bounds ?k bs ash) ! i = min (p ! i div bs ! i * bs ! i + bs ! i) (ash ! i)"
      using i lp lbs by (simp add: block_bounds_def Let_def)
    show "start (block_bounds ?k bs ash) ! i \<le> p ! i"
      using s axis_block_start_le(1)[of "bs ! i" "p ! i"] ax[OF i] by simp
    show "p ! i < stop (block_bounds ?k bs ash) ! i"
      using e axis_block_start_le(2)[of "bs ! i" "p ! i"] ax[OF i] by simp
  qed
qed

lemma read_blocks_result:
  assumes rd: "\<And>c broi. P c \<Longrightarrow> fst (rd c broi) = F broi \<and> P (snd (rd c broi))"
    and ok: "\<And>k. k \<in> set ks \<Longrightarrow> blockCoveringRoi k bs ash = Inr (block_bounds k bs ash)"
    and P: "P c"
  shows "\<exists>buf' c'. read_blocks bs ash rd r ks (buf, c, reqs)
           = Inr (buf', c', reqs @ map (\<lambda>k. block_bounds k bs ash) ks)
         \<and> P c'
         \<and> (\<forall>q. if \<exists>k\<in>set ks. in_shape q (roi_shape r)
                        \<and> in_roi (vadd (start r) q) (getIntersection (block_bounds k bs ash) r)
                 then \<exists>k\<in>set ks. in_shape q (roi_shape r)
                        \<and> in_roi (vadd (start r) q) (getIntersection (block_bounds k bs ash) r)
                        \<and> buf' q = a_data (F (block_bounds k bs ash))
                                     (vsub (vadd (start r) q) (start (block_bounds k bs ash)))
                 else buf' q = buf q)"
  using ok P
proof (induction ks arbitrary: buf c reqs)
  case Nil
  then show ?case by simp
next
  case (Cons k ks)
  let ?b = "block_bounds k bs ash"
  obtain d c1 where r1: "rd c ?b = (d, c1)" by (cases "rd c ?b")
  have d: "d = F ?b" and P1: "P c1" using rd[OF Cons.prems(2), of ?b] r1 by simp_all
  have ok': "\<And>k'. k' \<in> set ks \<Longrightarrow> blockCoveringRoi k' bs ash = Inr (block_bounds k' bs ash)"
    using Cons.prems(1) by simp
  obtain buf' c' where
    run: "read_blocks bs ash rd r ks (paste r ?b d buf, c1, reqs @ [?b])
            = Inr (buf', c', (reqs @ [?b]) @ map (\<lambda>k. block_bounds k bs ash) ks)"
    and P': "P c'"
    and cells: "\<forall>q. if \<exists>k\<in>set ks. in_shape q (roi_shape r)
                        \<and> in_roi (vadd (start r) q) (getIntersection (block_bounds k bs ash) r)
                 then \<exists>k\<in>set ks. in_shape q (roi_shape r)
                        \<and> in_roi (vadd (start r) q) (getIntersection (block_bounds k bs ash) r)
                        \<and> buf' q = a_data (F (block_bounds k bs ash))
                                     (vsub (vadd (start r) q) (start (block_bounds k bs ash)))
                 else buf' q = paste r ?b d buf q"
    using Cons.IH[OF ok' P1, of "paste r ?b d buf" "reqs @ [?b]"] by blast
  have step: "read_blocks bs ash rd r (k # ks) (buf, c, reqs)
        = Inr (buf', c', reqs @ map (\<lambda>k. block_bounds k bs ash) (k # ks))"
    using run r1 Cons.prems(1)[of k] by simp
  have "\<forall>q. if \<exists>k'\<in>set (k # ks). in_shape q (roi_shape r)
                        \<and> in_roi (vadd (start r) q) (getIntersection (block_bounds k' bs ash) r)
                 then \<exists>k'\<in>set (k # ks). in_shape q (roi_shape r)
                        \<and> in_roi (vadd (start r) q) (getIntersection (block_bounds k' bs ash) r)
                        \<and> buf' q = a_data (F (block_bounds k' bs ash))
                                     (vsub (vadd (start r) q) (start (block_bounds k' bs ash)))
                 else buf' q = buf q"
  proof
    fix q
    show "if \<exists>k'\<in>set (k # ks). in_shape q (roi_shape r)
                        \<and> in_roi (vadd (start r) q) (getIntersection (block_bounds k' bs ash) r)
                 then \<exists>k'\<in>set (k # ks). in_shape q (roi_shape r)
                        \<and> in_roi (vadd (start r) q) (getIntersection (block_bounds k' bs ash) r)
                        \<and> buf' q = a_data (F (block_bounds k' bs ash))
                                     (vsub (vadd (start r) q) (start (block_bounds k' bs ash)))
                 else buf' q = buf q"
      using cells[rule_format, of q] d
      by (auto simp: paste_def Let_def split: if_splits)
  qed
  then show ?case using step P' by blast
qed

lemma cache_read_coherent:
  assumes "coherent up c"
  shows "fst (cache_read (fixer_read up f) c broi) = computeRegion up broi
       \<and> coherent up (snd (cache_read (fixer_read up f) c broi))"
  using assms
  by (auto simp: cache_read_def coherent_def fixer_read_def Let_def split: option.splits)

lemma zero_extent_no_index:
  assumes "has_zero_extent r"
  shows "\<not> in_shape q (roi_shape r)"
proof
  assume q: "in_shape q (roi_shape r)"
  obtain i where "i < length (roi_shape r)" "roi_shape r ! i = 0"
    using assms by (auto simp: has_zero_extent_def list_ex_iff in_set_conv_nth)
  then show False using q by (auto simp: in_shape_nth)
qed

lemma zero_extent_no_blocks:
  assumes "roi_dim n r" "length bs = n" "has_zero_extent r"
  shows "blocksOverlapping r bs = []"
proof -
  obtain i where i: "i < length (roi_shape r)" "roi_shape r ! i = 0"
    using assms(3) by (auto simp: has_zero_extent_def list_ex_iff in_set_conv_nth)
  have "i < n" "stop r ! i = start r ! i"
    using i assms(1) by (auto simp: roi_shape_def vsub_def roi_dim_def)
  have no: "k \<notin> set (blocksOverlapping r bs)" for k
  proof
    assume "k \<in> set (blocksOverlapping r bs)"
    then have "start r ! i < stop r ! i"
      using mem_blocksOverlapping[OF assms(1,2), of k] \<open>i < n\<close> by simp
    then show False using \<open>stop r ! i = start r ! i\<close> by simp
  qed
  show ?thesis
  proof (cases "blocksOverlapping r bs")
    case Nil
    then show ?thesis .
  next
    case (Cons k ks)
    then have "k \<in> set (blocksOverlapping r bs)" by simp
    then show ?thesis using no[of k] by simp
  qed
qed

lemma splitter_read_result:
  assumes rd: "\<And>c broi. P c \<Longrightarrow> fst (rd c broi) = F broi \<and> P (snd (rd c broi))"
    and P: "P c"
    and vb: "valid_blockshape bs ash"
    and wb: "within_bounds r ash"
  shows "\<exists>a c'. splitter_read bs ash rd c r
           = Inr (a, c', map (\<lambda>k. block_bounds k bs ash) (blocksOverlapping r bs))
         \<and> P c'
         \<and> a_shape a = roi_shape r
         \<and> (\<forall>q. if in_shape q (roi_shape r)
                 then \<exists>k\<in>set (blocksOverlapping r bs).
                        in_roi (vadd (start r) q) (block_bounds k bs ash)
                        \<and> a_data a q = a_data (F (block_bounds k bs ash))
                                     (vsub (vadd (start r) q) (start (block_bounds k bs ash)))
                 else a_data a q = None)"
proof (cases "has_zero_extent r")
  case True
  have dim: "roi_dim (length ash) r" and lbs: "length bs = length ash"
    using wb vb by (simp_all add: within_bounds_nth valid_blockshape_nth roi_dim_def)
  have "splitter_read bs ash rd c r = Inr (\<lparr>a_shape = roi_shape r, a_data = Map.empty\<rparr>, c, [])"
    using True vb wb by (simp add: splitter_read_def)
  then show ?thesis
    using True P zero_extent_no_blocks[OF dim lbs True] zero_extent_no_index[OF True] by simp
next
  case False
  let ?ks = "blocksOverlapping r bs"
  have dim: "roi_dim (length ash) r" and lbs: "length bs = length ash"
    using wb vb by (simp_all add: within_bounds_nth valid_blockshape_nth roi_dim_def)
  have ok: "\<And>k. k \<in> set ?ks \<Longrightarrow> blockCoveringRoi k bs ash = Inr (block_bounds k bs ash)"
    using blocks_in_range(1)[OF wb vb] by simp
  obtain buf' c' where
    run: "read_blocks bs ash rd r ?ks (Map.empty, c, [])
            = Inr (buf', c', [] @ map (\<lambda>k. block_bounds k bs ash) ?ks)"
    and P': "P c'"
    and cells: "\<forall>q. if \<exists>k\<in>set ?ks. in_shape q (roi_shape r)
                        \<and> in_roi (vadd (start r) q) (getIntersection (block_bounds k bs ash) r)
                 then \<exists>k\<in>set ?ks. in_shape q (roi_shape r)
                        \<and> in_roi (vadd (start r) q) (getIntersection (block_bounds k bs ash) r)
                        \<and> buf' q = a_data (F (block_bounds k bs ash))
                                     (vsub (vadd (start r) q) (start (block_bounds k bs ash)))
                 else buf' q = Map.empty q"
    using read_blocks_result[where P = P and rd = rd and F = F, OF rd ok P, of ?ks r Map.empty "[]"]
    by blast
  have res: "splitter_read bs ash rd c r
      = Inr (\<lparr>a_shape = roi_shape r, a_data = buf'\<rparr>, c', map (\<lambda>k. block_bounds k bs ash) ?ks)"
    using False vb wb run by (simp add: splitter_read_def)
  have inter: "\<And>k p. k \<in> set ?ks \<Longrightarrow>
      in_roi p (getIntersection (block_bounds k bs ash) r)
        \<longleftrightarrow> in_roi p (block_bounds k bs ash) \<and> in_roi p r"
    using in_roi_getIntersection[OF blocks_in_range(2)[OF wb vb] dim] by simp
  have "\<forall>q. if in_shape q (roi_shape r)
             then \<exists>k\<in>set ?ks. in_roi (vadd (start r) q) (block_bounds k bs ash)
                    \<and> buf' q = a_data (F (block_bounds k bs ash))
                                 (vsub (vadd (start r) q) (start (block_bounds k bs ash)))
             else buf' q = None"
  proof
    fix q
    show "if in_shape q (roi_shape r)
             then \<exists>k\<in>set ?ks. in_roi (vadd (start r) q) (block_bounds k bs ash)
                    \<and> buf' q = a_data (F (block_bounds k bs ash))
                                 (vsub (vadd (start r) q) (start (block_bounds k bs ash)))
             else buf' q = None"
    proof (cases "in_shape q (roi_shape r)")
      case True
      let ?p = "vadd (start r) q"
      have pr: "in_roi ?p r" using in_shape_imp_in_roi[OF dim True] .
      have "map2 (div) ?p bs \<in> set ?ks"
        and "in_roi ?p (block_bounds (map2 (div) ?p bs) bs ash)"
        using point_block[OF wb vb pr] by simp_all
      then have "\<exists>k\<in>set ?ks. in_shape q (roi_shape r)
                        \<and> in_roi ?p (getIntersection (block_bounds k bs ash) r)"
        using True pr inter by blast
      then obtain k where "k \<in> set ?ks"
          "in_roi ?p (getIntersection (block_bounds k bs ash) r)"
          "buf' q = a_data (F (block_bounds k bs ash)) (vsub ?p (start (block_bounds k bs ash)))"
        using cells[rule_format, of q] by auto
      then show ?thesis using True inter by auto
    next
      case False
      then show ?thesis using cells[rule_format, of q] by auto
    qed
  qed
  then show ?thesis using res P' by simp
qed

lemma coherent_fresh: "coherent up (cache fresh_pipeline)"
  by (simp add: coherent_def fresh_pipeline_def)

text \<open>
  Coherence is established and kept as follows: a fresh pipeline is coherent with any
  upstream; while the freeze stage is Live, an upstream change confined to a region that
  the upstream announces dirty leaves the cache coherent with the new content, because
  every entry whose block overlaps the region is marked dirty.
\<close>

lemma covers_point:
  assumes "covers d r" "in_roi p r"
  shows "in_roi p d"
  using assms
  by (auto simp: covers_def in_roi_nth list_all2_conv_all_nth) force+

lemma common_point_overlaps:
  assumes "in_roi p a" "in_roi p b"
  shows "overlaps a b"
proof -
  have len: "length (start a) = length p" "length (stop a) = length p"
    "length (start b) = length p" "length (stop b) = length p"
    using assms by (simp_all add: in_roi_nth)
  have "max (start a ! i) (start b ! i) < min (stop a ! i) (stop b ! i)" if "i < length p" for i
    using assms that by (auto simp: in_roi_nth) force+
  then show ?thesis
    using len by (simp add: overlaps_def getIntersection_def list_all2_conv_all_nth)
qed

lemma computeRegion_unchanged:
  assumes "roi_dim n k" and "\<not> overlaps k r" and "\<forall>p. \<not> in_roi p r \<longrightarrow> up' p = up p"
  shows "computeRegion up' k = computeRegion up k"
proof -
  have "up' (vadd (start k) q) = up (vadd (start k) q)" if "in_shape q (roi_shape k)" for q
  proof -
    have "in_roi (vadd (start k) q) k" using in_shape_imp_in_roi[OF assms(1) that] .
    then have "\<not> in_roi (vadd (start k) q) r"
      using common_point_overlaps assms(2) by blast
    then show ?thesis using assms(3) by simp
  qed
  then show ?thesis by (auto simp: computeRegion_def)
qed

lemma coherent_after_live_dirty:
  assumes "coherent up (cache st)" and "\<not> frozen (fixer st)"
    and "\<forall>k e. cache st k = Some e \<longrightarrow> roi_dim n k"
    and "\<forall>p. \<not> in_roi p r \<longrightarrow> up' p = up p"
  shows "coherent up' (cache (pipeline_dirty r st))"
proof -
  have c: "cache (pipeline_dirty r st) = cache_dirty r (cache st)"
    using assms(2) by (simp add: pipeline_dirty_def fixer_dirty_def)
  show ?thesis
    unfolding c coherent_def
  proof (intro allI impI)
    fix k e'
    assume k: "cache_dirty r (cache st) k = Some e'" and nd: "\<not> e_dirty e'"
    then obtain e where e: "cache st k = Some e"
      and e': "e' = (if overlaps k r then e\<lparr>e_dirty := True\<rparr> else e)"
      by (auto simp: cache_dirty_def)
    have no: "\<not> overlaps k r" using e' nd by (auto split: if_splits)
    then have "e' = e" using e' by simp
    then have "e_data e' = computeRegion up k"
      using assms(1) e nd by (simp add: coherent_def)
    moreover have "roi_dim n k" using assms(3) e by blast
    ultimately show "e_data e' = computeRegion up' k"
      using computeRegion_unchanged[OF _ no assms(4)] by simp
  qed
qed

lemma read_blocks_requests:
  assumes ok: "\<And>k. k \<in> set ks \<Longrightarrow> blockCoveringRoi k bs ash = Inr (block_bounds k bs ash)"
  shows "\<exists>buf' c'. read_blocks bs ash rd r ks (buf, c, reqs)
           = Inr (buf', c', reqs @ map (\<lambda>k. block_bounds k bs ash) ks)"
  using ok
proof (induction ks arbitrary: buf c reqs)
  case Nil
  then show ?case by simp
next
  case (Cons k ks)
  obtain d c1 where r1: "rd c (block_bounds k bs ash) = (d, c1)"
    by (cases "rd c (block_bounds k bs ash)")
  have ok': "\<And>k'. k' \<in> set ks \<Longrightarrow> blockCoveringRoi k' bs ash = Inr (block_bounds k' bs ash)"
    using Cons.prems by simp
  show ?case
    using Cons.IH[OF ok', of "paste r (block_bounds k bs ash) d buf" c1
        "reqs @ [block_bounds k bs ash]"] r1 Cons.prems[of k]
    by simp
qed

lemma splitter_read_requests:
  assumes vb: "valid_blockshape bs ash" and wb: "within_bounds r ash"
  shows "\<exists>a c'. splitter_read bs ash rd c r
           = Inr (a, c', map (\<lambda>k. block_bounds k bs ash) (blocksOverlapping r bs))
         \<and> a_shape a = roi_shape r"
proof (cases "has_zero_extent r")
  case True
  have dim: "roi_dim (length ash) r" and lbs: "length bs = length ash"
    using wb vb by (simp_all add: within_bounds_nth valid_blockshape_nth roi_dim_def)
  show ?thesis
    using True vb wb zero_extent_no_blocks[OF dim lbs True] by (simp add: splitter_read_def)
next
  case False
  have ok: "\<And>k. k \<in> set (blocksOverlapping r bs)
      \<Longrightarrow> blockCoveringRoi k bs ash = Inr (block_bounds k bs ash)"
    using blocks_in_range(1)[OF wb vb] by simp
  obtain buf' c' where
    "read_blocks bs ash rd r (blocksOverlapping r bs) (Map.empty, c, [])
       = Inr (buf', c', [] @ map (\<lambda>k. block_bounds k bs ash) (blocksOverlapping r bs))"
    using read_blocks_requests[OF ok, of "blocksOverlapping r bs" rd r Map.empty c "[]"] by blast
  then show ?thesis using False vb wb by (simp add: splitter_read_def)
qed

text \<open>
  C4. The constructor creates the splitter with \<^verbatim>\<open>always_request_full_blocks=True\<close>. For a
  valid block shape and a region within the array bounds, a read through the splitter
  succeeds, whatever the state of the cache; the regions it requests from the cache are
  exactly the full covering regions of the blocks that overlap the requested region (they
  depend on the block index only, not on the requested region); and the result has the
  shape of the requested region. If the cache is coherent with the upstream, so that the
  array it returns for a block is the upstream's array of that block, every element of the
  result is the element, at the offset of the same point inside the block, of the array of
  a requested block that contains the point; the result has no element outside its shape.
\<close>

theorem C4_full_blocks:
  assumes "valid_blockshape bs ash" and "within_bounds r ash"
  shows "always_request_full_blocks init = Some True
     \<and> (\<exists>a c'. splitter_read bs ash (cache_read (fixer_read up f)) c r
           = Inr (a, c', map (\<lambda>k. block_bounds k bs ash) (blocksOverlapping r bs))
         \<and> a_shape a = roi_shape r
         \<and> (coherent up c \<longrightarrow>
             (\<forall>q. if in_shape q (roi_shape r)
                 then \<exists>k\<in>set (blocksOverlapping r bs).
                        in_roi (vadd (start r) q) (block_bounds k bs ash)
                        \<and> a_data a q = a_data (computeRegion up (block_bounds k bs ash))
                                     (vsub (vadd (start r) q) (start (block_bounds k bs ash)))
                 else a_data a q = None)))"
proof -
  have flag: "always_request_full_blocks init = Some True"
    by (simp add: init_def connect_def new_operator_def empty_graph_def)
  obtain a c' where
    res: "splitter_read bs ash (cache_read (fixer_read up f)) c r
           = Inr (a, c', map (\<lambda>k. block_bounds k bs ash) (blocksOverlapping r bs))"
    and sh: "a_shape a = roi_shape r"
    using splitter_read_requests[OF assms, where rd = "cache_read (fixer_read up f)" and c = c]
    by blast
  have "\<forall>q. if in_shape q (roi_shape r)
                 then \<exists>k\<in>set (blocksOverlapping r bs).
                        in_roi (vadd (start r) q) (block_bounds k bs ash)
                        \<and> a_data a q = a_data (computeRegion up (block_bounds k bs ash))
                                     (vsub (vadd (start r) q) (start (block_bounds k bs ash)))
                 else a_data a q = None" if coh: "coherent up c"
    using splitter_read_result[where P = "coherent up" and F = "computeRegion up"
        and rd = "cache_read (fixer_read up f)", OF cache_read_coherent coh assms] res
    by auto
  then show ?thesis using flag res sh by blast
qed

text \<open>
  The scenario of the spec: array shape (100, 100), block shape (32, 32); reading
  \<open>[(10, 10), (20, 20))\<close> requests the whole block \<open>[(0, 0), (32, 32))\<close> and nothing else.
\<close>

lemma blocks_scenario:
  "map (\<lambda>k. block_bounds k [32, 32] [100, 100])
       (blocksOverlapping \<lparr>start = [10, 10], stop = [20, 20]\<rparr> [32, 32])
     = [\<lparr>start = [0, 0], stop = [32, 32]\<rparr>]"
  by (simp add: blocksOverlapping_def axis_blocks_def block_bounds_def)

theorem C4_full_blocks_witness:
  "\<exists>a c'. splitter_read [32, 32] [100, 100]
             (cache_read (fixer_read (constant_content (0::int)) \<lparr>frozen = False, accumulated = None\<rparr>))
             Map.empty \<lparr>start = [10, 10], stop = [20, 20]\<rparr>
           = Inr (a, c', [\<lparr>start = [0, 0], stop = [32, 32]\<rparr>])
         \<and> a_shape a = [10, 10]
         \<and> a_data a [0, 0] = Some 0"
proof -
  let ?r = "\<lparr>start = [10, 10], stop = [20, 20]\<rparr>"
  let ?up = "constant_content (0::int)"
  have h1: "valid_blockshape [32, 32] [100, 100]" by (simp add: valid_blockshape_def)
  have h2: "within_bounds ?r [100, 100]" by (simp add: within_bounds_def)
  have h3: "coherent ?up Map.empty" by (simp add: coherent_def)
  have sh: "roi_shape ?r = [10, 10]" by (simp add: roi_shape_def vsub_def)
  have q: "in_shape [0, 0] (roi_shape ?r)" by (simp add: sh in_shape_def)
  obtain a c' where
    res: "splitter_read [32, 32] [100, 100]
            (cache_read (fixer_read ?up \<lparr>frozen = False, accumulated = None\<rparr>)) Map.empty ?r
           = Inr (a, c', [\<lparr>start = [0, 0], stop = [32, 32]\<rparr>])"
    and sha: "a_shape a = [10, 10]"
    and cells: "\<forall>q. if in_shape q (roi_shape ?r)
                 then \<exists>k\<in>set (blocksOverlapping ?r [32, 32]).
                        in_roi (vadd (start ?r) q) (block_bounds k [32, 32] [100, 100])
                        \<and> a_data a q = a_data (computeRegion ?up (block_bounds k [32, 32] [100, 100]))
                                     (vsub (vadd (start ?r) q) (start (block_bounds k [32, 32] [100, 100])))
                 else a_data a q = None"
    using C4_full_blocks[OF h1 h2, of ?up "\<lparr>frozen = False, accumulated = None\<rparr>" Map.empty] h3
    unfolding blocks_scenario sh by auto
  obtain k where k: "in_roi (vadd (start ?r) [0, 0]) (block_bounds k [32, 32] [100, 100])"
    and v: "a_data a [0, 0] = a_data (computeRegion ?up (block_bounds k [32, 32] [100, 100]))
           (vsub (vadd (start ?r) [0, 0]) (start (block_bounds k [32, 32] [100, 100])))"
    using cells[rule_format, of "[0, 0]"] q by auto
  have "a_data a [0, 0] = Some 0"
    using v computeRegion_cell[OF k, of ?up] by (simp add: constant_content_def)
  then show ?thesis using res sha by blast
qed

lemma pipeline_read_coherent:
  assumes "valid_blockshape bs ash" and "within_bounds r ash" and "coherent up (cache st)"
  shows "\<exists>st'. pipeline_read bs ash up st r = Inr (computeRegion up r, st')
          \<and> coherent up (cache st') \<and> fixer st' = fixer st"
proof -
  obtain a c' where
    res: "splitter_read bs ash (cache_read (fixer_read up (fixer st))) (cache st) r
           = Inr (a, c', map (\<lambda>k. block_bounds k bs ash) (blocksOverlapping r bs))"
    and coh: "coherent up c'"
    and sh: "a_shape a = roi_shape r"
    and cells: "\<forall>q. if in_shape q (roi_shape r)
                 then \<exists>k\<in>set (blocksOverlapping r bs).
                        in_roi (vadd (start r) q) (block_bounds k bs ash)
                        \<and> a_data a q = a_data (computeRegion up (block_bounds k bs ash))
                                     (vsub (vadd (start r) q) (start (block_bounds k bs ash)))
                 else a_data a q = None"
    using splitter_read_result[where P = "coherent up" and F = "computeRegion up"
        and rd = "cache_read (fixer_read up (fixer st))", OF cache_read_coherent assms(3,1,2)]
    by blast
  have "a_data a = a_data (computeRegion up r)"
  proof
    fix q
    show "a_data a q = a_data (computeRegion up r) q"
    proof (cases "in_shape q (roi_shape r)")
      case True
      then obtain k where "in_roi (vadd (start r) q) (block_bounds k bs ash)"
        and "a_data a q = a_data (computeRegion up (block_bounds k bs ash))
               (vsub (vadd (start r) q) (start (block_bounds k bs ash)))"
        using cells[rule_format, of q] by auto
      then have "a_data a q = Some (up (vadd (start r) q))"
        using computeRegion_cell by simp
      then show ?thesis using True by (simp add: computeRegion_def)
    next
      case False
      then show ?thesis using cells[rule_format, of q] by (simp add: computeRegion_def)
    qed
  qed
  then have "a = computeRegion up r" using sh by (simp add: computeRegion_def)
  then have "pipeline_read bs ash up st r = Inr (computeRegion up r, st\<lparr>cache := c'\<rparr>)"
    using res by (simp add: pipeline_read_def)
  then show ?thesis using coh by simp
qed

text \<open>
  The invariant of a history is kept by every event: by a read (a new entry holds the
  upstream's current array), by an announced upstream change (while Live the overlapping
  entries are marked dirty, while Frozen they overlap the accumulated region), and by a
  change of \<^verbatim>\<open>fixAtCurrent\<close> (the transition to Live marks dirty every entry that overlaps
  the accumulated region). In a Live state the invariant is coherence.
\<close>

lemma overlaps_covers:
  assumes "overlaps k r" "covers a r"
  shows "overlaps k a"
proof -
  let ?n = "length (map2 max (start k) (start r))"
  have l1: "length (start a) = length (start r)" "length (stop a) = length (stop r)"
    using assms(2) by (auto simp: covers_def list_all2_conv_all_nth)
  have l2: "min (length (start k)) (length (start r)) = min (length (stop k)) (length (stop r))"
    using assms(1) by (auto simp: overlaps_def getIntersection_def list_all2_conv_all_nth)
  have ax: "max (start k ! i) (start a ! i) < min (stop k ! i) (stop a ! i)"
    if i: "i < min (length (start k)) (length (start r))" for i
  proof -
    have "max (start k ! i) (start r ! i) < min (stop k ! i) (stop r ! i)"
      using assms(1) i l2 by (auto simp: overlaps_def getIntersection_def list_all2_conv_all_nth)
    moreover have "start a ! i \<le> start r ! i" "stop r ! i \<le> stop a ! i"
      using assms(2) i l2 by (auto simp: covers_def list_all2_conv_all_nth)
    ultimately show ?thesis by auto
  qed
  show ?thesis
    using l1 l2 ax by (auto simp: overlaps_def getIntersection_def list_all2_conv_all_nth)
qed

lemma cache_read_ok:
  assumes "cache_ok n up f c" "roi_dim n broi"
  shows "cache_ok n up f (snd (cache_read (fixer_read up f') c broi))"
  using assms
  by (auto simp: cache_ok_def cache_read_def fixer_read_def Let_def split: option.splits)

lemma read_blocks_preserves:
  assumes ok: "\<And>k. k \<in> set ks \<Longrightarrow> blockCoveringRoi k bs ash = Inr (block_bounds k bs ash)"
    and pres: "\<And>k c. k \<in> set ks \<Longrightarrow> Q c \<Longrightarrow> Q (snd (rd c (block_bounds k bs ash)))"
    and Q: "Q c"
  shows "\<exists>buf' c' reqs'. read_blocks bs ash rd r ks (buf, c, reqs) = Inr (buf', c', reqs') \<and> Q c'"
  using ok pres Q
proof (induction ks arbitrary: buf c reqs)
  case Nil
  then show ?case by simp
next
  case (Cons k ks)
  obtain d c1 where r1: "rd c (block_bounds k bs ash) = (d, c1)"
    by (cases "rd c (block_bounds k bs ash)")
  have Q1: "Q c1" using Cons.prems(2)[of k c] Cons.prems(3) r1 by simp
  have ok': "\<And>k'. k' \<in> set ks \<Longrightarrow> blockCoveringRoi k' bs ash = Inr (block_bounds k' bs ash)"
    using Cons.prems(1) by simp
  have pres': "\<And>k' c. k' \<in> set ks \<Longrightarrow> Q c \<Longrightarrow> Q (snd (rd c (block_bounds k' bs ash)))"
    using Cons.prems(2) by simp
  show ?case
    using Cons.IH[OF ok' pres' Q1, of "paste r (block_bounds k bs ash) d buf"
        "reqs @ [block_bounds k bs ash]"] r1 Cons.prems(1)[of k]
    by simp
qed

lemma read_state_ok:
  assumes "cache_ok (length ash) up (fixer st) (cache st)"
  shows "cache_ok (length ash) up (fixer st) (cache (read_state bs ash up st r))
       \<and> fixer (read_state bs ash up st r) = fixer st"
proof (cases "valid_blockshape bs ash \<and> within_bounds r ash \<and> \<not> has_zero_extent r")
  case False
  then have "read_state bs ash up st r = st \<or> read_state bs ash up st r = st\<lparr>cache := cache st\<rparr>"
    by (auto simp: read_state_def pipeline_read_def splitter_read_def)
  then show ?thesis using assms by auto
next
  case True
  then have vb: "valid_blockshape bs ash" and wb: "within_bounds r ash"
    and nz: "\<not> has_zero_extent r" by simp_all
  let ?rd = "cache_read (fixer_read up (fixer st))"
  have ok: "\<And>k. k \<in> set (blocksOverlapping r bs)
      \<Longrightarrow> blockCoveringRoi k bs ash = Inr (block_bounds k bs ash)"
    using blocks_in_range(1)[OF wb vb] by simp
  have pres: "\<And>k c. k \<in> set (blocksOverlapping r bs)
      \<Longrightarrow> cache_ok (length ash) up (fixer st) c
      \<Longrightarrow> cache_ok (length ash) up (fixer st) (snd (?rd c (block_bounds k bs ash)))"
    using cache_read_ok blocks_in_range(2)[OF wb vb] by blast
  obtain buf' c' reqs' where
    run: "read_blocks bs ash ?rd r (blocksOverlapping r bs) (Map.empty, cache st, [])
            = Inr (buf', c', reqs')"
    and Q: "cache_ok (length ash) up (fixer st) c'"
    using read_blocks_preserves[where Q = "cache_ok (length ash) up (fixer st)" and rd = ?rd,
        OF ok pres assms, of "blocksOverlapping r bs" r Map.empty "[]"]
    by blast
  have "read_state bs ash up st r = st\<lparr>cache := c'\<rparr>"
    using vb wb nz run by (simp add: read_state_def pipeline_read_def splitter_read_def)
  then show ?thesis using Q by simp
qed

lemma changed_content_outside: "\<forall>p. \<not> in_roi p r \<longrightarrow> changed_content up new r p = up p"
  by (simp add: changed_content_def)

lemma snapshot_ok_read:
  assumes "snapshot_ok (length ash) up st"
  shows "snapshot_ok (length ash) up (read_state bs ash up st r)"
  using assms read_state_ok[of ash up st bs r] by (simp add: snapshot_ok_def)

lemma snapshot_ok_dirty:
  assumes inv: "snapshot_ok n up st" and dim: "roi_dim n r"
  shows "snapshot_ok n (changed_content up new r) (pipeline_dirty r st)"
proof (cases "frozen (fixer st)")
  case False
  have f: "fixer (pipeline_dirty r st) = fixer st"
    and c: "cache (pipeline_dirty r st) = cache_dirty r (cache st)"
    using False by (simp_all add: pipeline_dirty_def fixer_dirty_def)
  have "cache_ok n (changed_content up new r) (fixer st) (cache_dirty r (cache st))"
    unfolding cache_ok_def
  proof (intro allI impI conjI)
    fix k e'
    assume k: "cache_dirty r (cache st) k = Some e'"
    then obtain e where e: "cache st k = Some e"
      and e': "e' = (if overlaps k r then e\<lparr>e_dirty := True\<rparr> else e)"
      by (auto simp: cache_dirty_def)
    show kd: "roi_dim n k" using inv e by (simp add: snapshot_ok_def cache_ok_def)
    assume nd: "\<not> e_dirty e'"
    have no: "\<not> overlaps k r" using e' nd by (auto split: if_splits)
    then have "e' = e" using e' by simp
    then have "e_data e' = computeRegion up k"
      using inv e nd False by (auto simp: snapshot_ok_def cache_ok_def)
    then have "e_data e' = computeRegion (changed_content up new r) k"
      using computeRegion_unchanged[OF kd no changed_content_outside[where r = r and up = up and new = new]] by simp
    then show "e_data e' = computeRegion (changed_content up new r) k
        \<or> (frozen (fixer st) \<and> (\<exists>a. accumulated (fixer st) = Some a \<and> overlaps k a))"
      by simp
  qed
  then show ?thesis using inv f c by (simp add: snapshot_ok_def)
next
  case True
  let ?acc = "merge_dirty (accumulated (fixer st)) r"
  have f: "fixer (pipeline_dirty r st) = (fixer st)\<lparr>accumulated := ?acc\<rparr>"
    and c: "cache (pipeline_dirty r st) = cache st"
    using True by (simp_all add: pipeline_dirty_def fixer_dirty_def)
  obtain a' where a': "?acc = Some a'" "covers a' r" "roi_dim n a'"
    and old: "\<And>a. accumulated (fixer st) = Some a \<Longrightarrow> covers a' a"
  proof (cases "accumulated (fixer st)")
    case None
    then show ?thesis using that[of r] covers_refl dim by (simp add: merge_dirty_def)
  next
    case (Some a)
    then have "roi_dim n a" using inv by (simp add: snapshot_ok_def accumulated_dim_def)
    then show ?thesis
      using that[of "bounding_box a r"] Some covers_bounding_box[of n a r] dim
      by (simp add: merge_dirty_def)
  qed
  have "cache_ok n (changed_content up new r) ((fixer st)\<lparr>accumulated := ?acc\<rparr>) (cache st)"
    unfolding cache_ok_def
  proof (intro allI impI conjI)
    fix k e
    assume e: "cache st k = Some e"
    show kd: "roi_dim n k" using inv e by (simp add: snapshot_ok_def cache_ok_def)
    assume nd: "\<not> e_dirty e"
    have cases: "e_data e = computeRegion up k
        \<or> (\<exists>a. accumulated (fixer st) = Some a \<and> overlaps k a)"
      using inv e nd by (auto simp: snapshot_ok_def cache_ok_def)
    have "e_data e = computeRegion (changed_content up new r) k \<or> overlaps k a'"
    proof (cases "overlaps k r")
      case True
      then show ?thesis using overlaps_covers[OF _ a'(2)] by simp
    next
      case no: False
      from cases show ?thesis
      proof
        assume "e_data e = computeRegion up k"
        then show ?thesis
          using computeRegion_unchanged[OF kd no changed_content_outside[where r = r and up = up and new = new]] by simp
      next
        assume "\<exists>a. accumulated (fixer st) = Some a \<and> overlaps k a"
        then show ?thesis using overlaps_covers old by blast
      qed
    qed
    then show "e_data e = computeRegion (changed_content up new r) k
        \<or> (frozen ((fixer st)\<lparr>accumulated := ?acc\<rparr>)
            \<and> (\<exists>a. accumulated ((fixer st)\<lparr>accumulated := ?acc\<rparr>) = Some a \<and> overlaps k a))"
      using True a'(1) by auto
  qed
  moreover have "accumulated_dim n ((fixer st)\<lparr>accumulated := ?acc\<rparr>)"
    using a'(1,3) by (simp add: accumulated_dim_def)
  ultimately show ?thesis using f c by (simp add: snapshot_ok_def)
qed

lemma snapshot_ok_setFrozen:
  assumes inv: "snapshot_ok n up st"
  shows "snapshot_ok n up (pipeline_setFrozen b st)"
proof (cases "frozen (fixer st) \<and> \<not> b")
  case False
  then consider "frozen (fixer st)" "b" | "\<not> frozen (fixer st)" "b" | "\<not> frozen (fixer st)" "\<not> b"
    by blast
  then show ?thesis
  proof cases
    case 1
    then have "pipeline_setFrozen b st = st\<lparr>fixer := fixer st, cache := cache st\<rparr>"
      by (simp add: pipeline_setFrozen_def setFrozen_def)
    then show ?thesis using inv by (simp add: snapshot_ok_def)
  next
    case 2
    then have "pipeline_setFrozen b st
        = st\<lparr>fixer := \<lparr>frozen = True, accumulated = None\<rparr>, cache := cache st\<rparr>"
      by (simp add: pipeline_setFrozen_def setFrozen_def)
    then show ?thesis
      using inv 2 by (auto simp: snapshot_ok_def cache_ok_def accumulated_dim_def)
  next
    case 3
    then have "pipeline_setFrozen b st = st\<lparr>fixer := fixer st, cache := cache st\<rparr>"
      by (simp add: pipeline_setFrozen_def setFrozen_def)
    then show ?thesis using inv by (simp add: snapshot_ok_def)
  qed
next
  case True
  then have fr: "frozen (fixer st)" and nb: "\<not> b" by simp_all
  let ?live = "\<lparr>frozen = False, accumulated = None\<rparr>"
  show ?thesis
  proof (cases "accumulated (fixer st)")
    case None
    then have "pipeline_setFrozen b st = st\<lparr>fixer := ?live, cache := cache st\<rparr>"
      using fr nb by (simp add: pipeline_setFrozen_def setFrozen_def)
    then show ?thesis
      using inv None by (auto simp: snapshot_ok_def cache_ok_def accumulated_dim_def)
  next
    case (Some a)
    then have eq: "pipeline_setFrozen b st = st\<lparr>fixer := ?live, cache := cache_dirty a (cache st)\<rparr>"
      using fr nb by (simp add: pipeline_setFrozen_def setFrozen_def)
    have "cache_ok n up ?live (cache_dirty a (cache st))"
      unfolding cache_ok_def
    proof (intro allI impI conjI)
      fix k e'
      assume k: "cache_dirty a (cache st) k = Some e'"
      then obtain e where e: "cache st k = Some e"
        and e': "e' = (if overlaps k a then e\<lparr>e_dirty := True\<rparr> else e)"
        by (auto simp: cache_dirty_def)
      show "roi_dim n k" using inv e by (simp add: snapshot_ok_def cache_ok_def)
      assume nd: "\<not> e_dirty e'"
      have no: "\<not> overlaps k a" using e' nd by (auto split: if_splits)
      then have "e' = e" using e' by simp
      then have "e_data e' = computeRegion up k"
        using inv e nd no Some by (auto simp: snapshot_ok_def cache_ok_def)
      then show "e_data e' = computeRegion up k
          \<or> (frozen ?live \<and> (\<exists>a. accumulated ?live = Some a \<and> overlaps k a))"
        by simp
    qed
    then show ?thesis using eq by (simp add: snapshot_ok_def accumulated_dim_def)
  qed
qed

lemma snapshot_ok_step:
  assumes "snapshot_ok (length ash) (fst s) (snd s)" and "event_ok (length ash) e"
  shows "snapshot_ok (length ash) (fst (pipeline_step bs ash e s)) (snd (pipeline_step bs ash e s))"
proof (cases s)
  case (Pair up st)
  show ?thesis
  proof (cases e)
    case (Read r)
    then show ?thesis using assms Pair snapshot_ok_read by simp
  next
    case (UpstreamChange new r)
    then show ?thesis using assms Pair snapshot_ok_dirty by simp
  next
    case (SetFrozen b)
    then show ?thesis using assms Pair snapshot_ok_setFrozen by simp
  qed
qed

lemma snapshot_ok_run:
  assumes "snapshot_ok (length ash) (fst s) (snd s)" and "list_all (event_ok (length ash)) es"
  shows "snapshot_ok (length ash) (fst (pipeline_run bs ash es s)) (snd (pipeline_run bs ash es s))"
  using assms
proof (induction es arbitrary: s)
  case Nil
  then show ?case by (simp add: pipeline_run_def)
next
  case (Cons e es)
  have "event_ok (length ash) e" using Cons.prems(2) by simp
  then have "snapshot_ok (length ash) (fst (pipeline_step bs ash e s)) (snd (pipeline_step bs ash e s))"
    using snapshot_ok_step[OF Cons.prems(1)] by blast
  then show ?case using Cons.IH[of "pipeline_step bs ash e s"] Cons.prems(2)
    by (simp add: pipeline_run_def)
qed

lemma snapshot_ok_fresh: "snapshot_ok n up fresh_pipeline"
  by (simp add: snapshot_ok_def cache_ok_def accumulated_dim_def fresh_pipeline_def)

lemma snapshot_ok_live_coherent:
  assumes "snapshot_ok n up st" "\<not> frozen (fixer st)"
  shows "coherent up (cache st)"
  using assms by (auto simp: snapshot_ok_def cache_ok_def coherent_def)

lemma first_read_state:
  "read_state [2] [4] (constant_content (0::int)) fresh_pipeline \<lparr>start = [0], stop = [2]\<rparr>
     = \<lparr>fixer = \<lparr>frozen = False, accumulated = None\<rparr>,
        cache = [\<lparr>start = [0], stop = [2]\<rparr> \<mapsto>
                  \<lparr>e_data = computeRegion (constant_content 0) \<lparr>start = [0], stop = [2]\<rparr>,
                   e_dirty = False\<rparr>]\<rparr>"
  by (simp add: read_state_def pipeline_read_def splitter_read_def valid_blockshape_def
      within_bounds_def has_zero_extent_def roi_shape_def vsub_def blocksOverlapping_def
      axis_blocks_def blockCoveringRoi_def block_bounds_def cache_read_def fixer_read_def
      fresh_pipeline_def Let_def)

lemma live_after_unfreeze: "\<not> frozen (fixer (pipeline_setFrozen False st))"
  by (simp add: pipeline_setFrozen_def setFrozen_def)

text \<open>
  C6, as stated, fails. One-dimensional array of shape 4, block shape 2, upstream content
  0 everywhere. The region \<open>[0, 2)\<close> is read; the pipeline is frozen; the upstream changes
  its content to 1 inside \<open>[0, 2)\<close> and announces \<open>[0, 2)\<close> dirty. The pipeline is then
  Frozen, and a read of \<open>[0, 2)\<close> returns 0 at index 0, where a direct upstream read
  returns 1.
\<close>

theorem C6_counterexample:
  "frozen (fixer (snd (pipeline_run [2] [4]
      [Read \<lparr>start = [0], stop = [2]\<rparr>, SetFrozen True,
       UpstreamChange (constant_content 1) \<lparr>start = [0], stop = [2]\<rparr>]
      (constant_content (0::int), fresh_pipeline))))
   \<and> read_cell [2] [4]
        (fst (pipeline_run [2] [4]
          [Read \<lparr>start = [0], stop = [2]\<rparr>, SetFrozen True,
           UpstreamChange (constant_content 1) \<lparr>start = [0], stop = [2]\<rparr>]
          (constant_content (0::int), fresh_pipeline)))
        (snd (pipeline_run [2] [4]
          [Read \<lparr>start = [0], stop = [2]\<rparr>, SetFrozen True,
           UpstreamChange (constant_content 1) \<lparr>start = [0], stop = [2]\<rparr>]
          (constant_content (0::int), fresh_pipeline)))
        \<lparr>start = [0], stop = [2]\<rparr> [0] = Some 0
   \<and> a_data (computeRegion
        (fst (pipeline_run [2] [4]
          [Read \<lparr>start = [0], stop = [2]\<rparr>, SetFrozen True,
           UpstreamChange (constant_content 1) \<lparr>start = [0], stop = [2]\<rparr>]
          (constant_content (0::int), fresh_pipeline)))
        \<lparr>start = [0], stop = [2]\<rparr>) [0] = Some 1"
  by (simp add: pipeline_run_def first_read_state read_cell_def pipeline_read_def
      splitter_read_def valid_blockshape_def within_bounds_def has_zero_extent_def roi_shape_def
      vsub_def vadd_def blocksOverlapping_def axis_blocks_def blockCoveringRoi_def
      block_bounds_def cache_read_def fixer_read_def pipeline_dirty_def pipeline_setFrozen_def
      setFrozen_def fixer_dirty_def merge_dirty_def paste_def in_shape_def in_roi_def
      getIntersection_def computeRegion_def constant_content_def changed_content_def
      cache_dirty_def overlaps_def Let_def)

text \<open>
  C6, amended. Take any history from the construction of the pipeline: reads, changes of
  \<^verbatim>\<open>fixAtCurrent\<close>, and upstream changes, each confined to a region of the dimension of
  the array that the upstream announces dirty. If the pipeline is not frozen after the
  history, then for a valid block shape and every region within the array bounds a read
  through the pipeline succeeds and returns exactly the array a direct \<^verbatim>\<open>computeRegion\<close> of
  the region returns on the upstream's current content; the read leaves the freeze stage as
  it was.
\<close>

theorem C6_transparent_while_live:
  assumes "valid_blockshape bs ash" and "within_bounds r ash"
    and "list_all (event_ok (length ash)) es"
    and "pipeline_run bs ash es (up0, fresh_pipeline) = (up, st)"
    and "\<not> frozen (fixer st)"
  shows "\<exists>st'. pipeline_read bs ash up st r = Inr (computeRegion up r, st')
          \<and> fixer st' = fixer st"
proof -
  have "snapshot_ok (length ash) up st"
    using snapshot_ok_run[of ash "(up0, fresh_pipeline)" es bs]
      snapshot_ok_fresh[of "length ash" up0] assms(3,4)
    by simp
  then have "coherent up (cache st)" using snapshot_ok_live_coherent assms(5) by blast
  then show ?thesis using pipeline_read_coherent[OF assms(1,2)] by blast
qed

theorem C6_transparent_while_live_witness:
  "(\<exists>st'. pipeline_read [2] [4]
        (fst (pipeline_run [2] [4]
          [Read \<lparr>start = [0], stop = [2]\<rparr>, SetFrozen True,
           UpstreamChange (constant_content 1) \<lparr>start = [0], stop = [2]\<rparr>, SetFrozen False]
          (constant_content (0::int), fresh_pipeline)))
        (snd (pipeline_run [2] [4]
          [Read \<lparr>start = [0], stop = [2]\<rparr>, SetFrozen True,
           UpstreamChange (constant_content 1) \<lparr>start = [0], stop = [2]\<rparr>, SetFrozen False]
          (constant_content (0::int), fresh_pipeline)))
        \<lparr>start = [0], stop = [2]\<rparr>
      = Inr (computeRegion
              (fst (pipeline_run [2] [4]
                [Read \<lparr>start = [0], stop = [2]\<rparr>, SetFrozen True,
                 UpstreamChange (constant_content 1) \<lparr>start = [0], stop = [2]\<rparr>, SetFrozen False]
                (constant_content (0::int), fresh_pipeline)))
              \<lparr>start = [0], stop = [2]\<rparr>, st'))
   \<and> a_data (computeRegion
        (fst (pipeline_run [2] [4]
          [Read \<lparr>start = [0], stop = [2]\<rparr>, SetFrozen True,
           UpstreamChange (constant_content 1) \<lparr>start = [0], stop = [2]\<rparr>, SetFrozen False]
          (constant_content (0::int), fresh_pipeline)))
        \<lparr>start = [0], stop = [2]\<rparr>) [0] = Some 1"
proof -
  let ?r = "\<lparr>start = [0], stop = [2]\<rparr>"
  let ?es = "[Read ?r, SetFrozen True, UpstreamChange (constant_content (1::int)) ?r,
              SetFrozen False]"
  let ?s = "pipeline_run [2] [4] ?es (constant_content (0::int), fresh_pipeline)"
  have h1: "valid_blockshape [2] [4]" by (simp add: valid_blockshape_def)
  have h2: "within_bounds ?r [4]" by (simp add: within_bounds_def)
  have h3: "list_all (event_ok (length [4::int])) ?es" by (simp add: roi_dim_def)
  have h4: "?s = (fst ?s, snd ?s)" by simp
  have h5: "\<not> frozen (fixer (snd ?s))"
    by (simp add: pipeline_run_def live_after_unfreeze)
  have v: "a_data (computeRegion (fst ?s) ?r) [0] = Some 1"
    by (simp add: pipeline_run_def computeRegion_def changed_content_def constant_content_def
        in_shape_def in_roi_def roi_shape_def vsub_def vadd_def)
  show ?thesis
    using v C6_transparent_while_live[OF h1 h2 h3 h4 h5] by blast
qed

end
